theory Spec2Isabelle
  imports Main "HOL-Library.Word"
begin

section \<open>JavaScript strings\<close>

text \<open>
  A JavaScript string is a sequence of 16-bit code units; \<open>===\<close> on strings compares
  the sequences. Literals of the source are written \<open>js ''...''\<close>.
\<close>

type_synonym code_unit = "16 word"
type_synonym jsstring = "code_unit list"

definition cu :: "nat \<Rightarrow> code_unit" where
  "cu n = of_nat n"

definition js :: "string \<Rightarrow> jsstring" where
  "js s = map (\<lambda>c. cu (of_char c)) s"

definition slash :: code_unit where
  "slash = 47"

text \<open>
  \<open>String.prototype.split\<close> with a one-unit separator: the pieces between the
  occurrences of the separator; the empty string gives one empty piece.
\<close>

fun split_on :: "'a \<Rightarrow> 'a list \<Rightarrow> 'a list list" where
  "split_on sep [] = [[]]"
| "split_on sep (c # cs) =
     (if c = sep then [] # split_on sep cs
      else case split_on sep cs of
             [] \<Rightarrow> [[c]]
           | piece # pieces \<Rightarrow> (c # piece) # pieces)"

text \<open>\<open>Array.prototype.join\<close> with a one-unit separator.\<close>

fun join :: "'a \<Rightarrow> 'a list list \<Rightarrow> 'a list" where
  "join sep [] = []"
| "join sep [x] = x"
| "join sep (x # y # ys) = x @ sep # join sep (y # ys)"

section \<open>JavaScript numbers\<close>

text \<open>
  The Numbers that stand for page numbers and scroll offsets: an integer or \<open>NaN\<close>.
  The source's Numbers are doubles; integers of magnitude below \<open>2^53\<close> are exact
  there, and the model is meant for them (negative zero is zero here; fractions and
  infinities are not modelled). Every comparison with \<open>NaN\<close> is false, and arithmetic
  on \<open>NaN\<close> gives \<open>NaN\<close>.
\<close>

datatype jsnumber = NaN | Num int

fun js_less :: "jsnumber \<Rightarrow> jsnumber \<Rightarrow> bool" where
  "js_less (Num a) (Num b) = (a < b)"
| "js_less _ _ = False"

definition js_greater :: "jsnumber \<Rightarrow> jsnumber \<Rightarrow> bool" where
  "js_greater a b = js_less b a"

fun js_plus :: "jsnumber \<Rightarrow> jsnumber \<Rightarrow> jsnumber" where
  "js_plus (Num a) (Num b) = Num (a + b)"
| "js_plus _ _ = NaN"

fun js_minus :: "jsnumber \<Rightarrow> jsnumber \<Rightarrow> jsnumber" where
  "js_minus (Num a) (Num b) = Num (a - b)"
| "js_minus _ _ = NaN"

section \<open>UTF-16 and UTF-8\<close>

text \<open>
  What the built-ins of the page do with code points, after ECMAScript
  (\<open>CodePointAt\<close>, \<open>UTF16EncodeCodePoint\<close>) and the UTF-8 encoding. A lead
  surrogate followed by a trail surrogate is one code point above \<open>0xFFFF\<close>; any
  other surrogate is unpaired. \<open>well_formed\<close> strings have no unpaired surrogate.
\<close>

definition is_lead :: "code_unit \<Rightarrow> bool" where
  "is_lead c \<longleftrightarrow> 0xD800 \<le> c \<and> c \<le> 0xDBFF"

definition is_trail :: "code_unit \<Rightarrow> bool" where
  "is_trail c \<longleftrightarrow> 0xDC00 \<le> c \<and> c \<le> 0xDFFF"

definition pair_code_point :: "code_unit \<Rightarrow> code_unit \<Rightarrow> nat" where
  "pair_code_point lead trail = (unat lead - 0xD800) * 0x400 + (unat trail - 0xDC00) + 0x10000"

definition utf16 :: "nat \<Rightarrow> jsstring" where
  "utf16 cp =
     (if cp \<le> 0xFFFF then [cu cp]
      else [cu ((cp - 0x10000) div 0x400 + 0xD800), cu ((cp - 0x10000) mod 0x400 + 0xDC00)])"

definition utf8 :: "nat \<Rightarrow> nat list" where
  "utf8 cp =
     (if cp < 0x80 then [cp]
      else if cp < 0x800 then [0xC0 + cp div 64, 0x80 + cp mod 64]
      else if cp < 0x10000 then [0xE0 + cp div 4096, 0x80 + cp div 64 mod 64, 0x80 + cp mod 64]
      else [0xF0 + cp div 262144, 0x80 + cp div 4096 mod 64, 0x80 + cp div 64 mod 64,
            0x80 + cp mod 64])"

fun well_formed :: "jsstring \<Rightarrow> bool" where
  "well_formed [] = True"
| "well_formed (c # cs) =
     (if is_lead c then (case cs of [] \<Rightarrow> False | d # ds \<Rightarrow> is_trail d \<and> well_formed ds)
      else \<not> is_trail c \<and> well_formed cs)"

section \<open>\<open>encodeURIComponent\<close> and \<open>decodeURIComponent\<close>\<close>

text \<open>
  The abstract operations \<open>Encode\<close> and \<open>Decode\<close> of ECMAScript, as the two
  built-ins call them: nothing but ASCII letters, digits and \<open>-_.!~*'()\<close> is left
  unescaped by \<open>encodeURIComponent\<close>, and \<open>decodeURIComponent\<close> preserves no
  escape. Both throw \<open>URIError\<close>, the only exception they have; \<open>None\<close> is the
  throw. \<open>Encode\<close> throws on an unpaired surrogate.
\<close>

definition unreserved :: "code_unit \<Rightarrow> bool" where
  "unreserved c =
     (let n = unat c
      in (65 \<le> n \<and> n \<le> 90) \<or> (97 \<le> n \<and> n \<le> 122) \<or> (48 \<le> n \<and> n \<le> 57) \<or>
         n \<in> {95, 45, 46, 33, 126, 42, 39, 40, 41})"

definition hex_digit :: "nat \<Rightarrow> code_unit" where
  "hex_digit d = (if d < 10 then cu (48 + d) else cu (55 + d))"

definition percent_octet :: "nat \<Rightarrow> jsstring" where
  "percent_octet b = [37, hex_digit (b div 16), hex_digit (b mod 16)]"

definition percent_octets :: "nat list \<Rightarrow> jsstring" where
  "percent_octets bs = concat (map percent_octet bs)"

fun Encode :: "jsstring \<Rightarrow> jsstring option" where
  "Encode [] = Some []"
| "Encode (c # cs) =
     (if unreserved c then map_option ((#) c) (Encode cs)
      else if is_trail c then None
      else if \<not> is_lead c then map_option ((@) (percent_octets (utf8 (unat c)))) (Encode cs)
      else case cs of
             [] \<Rightarrow> None
           | d # ds \<Rightarrow>
               if is_trail d
               then map_option ((@) (percent_octets (utf8 (pair_code_point c d)))) (Encode ds)
               else None)"

definition encodeURIComponent :: "jsstring \<Rightarrow> jsstring option" where
  "encodeURIComponent s = Encode s"

text \<open>
  \<open>Decode\<close> copies every unit but \<open>%\<close>. At a \<open>%\<close> it reads the octet
  \<open>%XX\<close>; an octet below \<open>0x80\<close> is a unit of its own, an octet with \<open>n\<close>
  leading one bits (\<open>2 \<le> n \<le> 4\<close>) is followed by \<open>n - 1\<close> further octets, and
  the \<open>n\<close> octets must be the UTF-8 encoding of a code point. Everything else throws.
\<close>

definition hex_value :: "code_unit \<Rightarrow> nat option" where
  "hex_value c =
     (let n = unat c
      in if 48 \<le> n \<and> n \<le> 57 then Some (n - 48)
         else if 65 \<le> n \<and> n \<le> 70 then Some (n - 55)
         else if 97 \<le> n \<and> n \<le> 102 then Some (n - 87)
         else None)"

fun read_octet :: "jsstring \<Rightarrow> (nat \<times> jsstring) option" where
  "read_octet (p # h # l # rest) =
     (if p = 37 then
        (case (hex_value h, hex_value l) of
           (Some a, Some b) \<Rightarrow> Some (16 * a + b, rest)
         | _ \<Rightarrow> None)
      else None)"
| "read_octet _ = None"

fun read_octets :: "nat \<Rightarrow> jsstring \<Rightarrow> (nat list \<times> jsstring) option" where
  "read_octets 0 s = Some ([], s)"
| "read_octets (Suc j) s =
     (case read_octet s of
        None \<Rightarrow> None
      | Some (b, rest) \<Rightarrow>
          (case read_octets j rest of
             None \<Rightarrow> None
           | Some (bs, rest') \<Rightarrow> Some (b # bs, rest')))"

definition leading_ones :: "nat \<Rightarrow> nat" where
  "leading_ones b =
     (if b < 0x80 then 0 else if b < 0xC0 then 1 else if b < 0xE0 then 2
      else if b < 0xF0 then 3 else if b < 0xF8 then 4 else 5)"

definition continuation :: "nat \<Rightarrow> bool" where
  "continuation b \<longleftrightarrow> 0x80 \<le> b \<and> b < 0xC0"

fun utf8_code_point :: "nat list \<Rightarrow> nat option" where
  "utf8_code_point [b1, b2] =
     (let v = b1 mod 32 * 64 + b2 mod 64
      in if continuation b2 \<and> 0x80 \<le> v then Some v else None)"
| "utf8_code_point [b1, b2, b3] =
     (let v = (b1 mod 16 * 64 + b2 mod 64) * 64 + b3 mod 64
      in if continuation b2 \<and> continuation b3 \<and> 0x800 \<le> v \<and> (v < 0xD800 \<or> 0xDFFF < v)
         then Some v else None)"
| "utf8_code_point [b1, b2, b3, b4] =
     (let v = ((b1 mod 8 * 64 + b2 mod 64) * 64 + b3 mod 64) * 64 + b4 mod 64
      in if continuation b2 \<and> continuation b3 \<and> continuation b4 \<and> 0x10000 \<le> v \<and> v \<le> 0x10FFFF
         then Some v else None)"
| "utf8_code_point _ = None"

lemma read_octet_shorter: "read_octet s = Some (b, rest) \<Longrightarrow> length rest < length s"
  by (induction s rule: read_octet.induct) (auto split: if_splits option.splits)

lemma read_octets_shorter: "read_octets j s = Some (bs, rest) \<Longrightarrow> length rest \<le> length s"
proof (induction j arbitrary: s bs rest)
  case 0
  then show ?case by simp
next
  case (Suc j)
  then show ?case
    by (fastforce split: option.splits dest: read_octet_shorter)
qed

function Decode :: "jsstring \<Rightarrow> jsstring option" where
  "Decode [] = Some []"
| "Decode (c # cs) =
     (if c \<noteq> 37 then map_option ((#) c) (Decode cs)
      else case read_octet (c # cs) of
             None \<Rightarrow> None
           | Some (b, rest) \<Rightarrow>
               let n = leading_ones b
               in if n = 0 then map_option ((#) (cu b)) (Decode rest)
                  else if n = 1 \<or> 4 < n then None
                  else case read_octets (n - 1) rest of
                         None \<Rightarrow> None
                       | Some (bs, rest') \<Rightarrow>
                           (case utf8_code_point (b # bs) of
                              None \<Rightarrow> None
                            | Some v \<Rightarrow> map_option ((@) (utf16 v)) (Decode rest')))"
  by pat_completeness auto
termination
proof (relation "measure length")
  show "wf (measure length)" by simp
next
  fix c :: code_unit and cs
  show "(cs, c # cs) \<in> measure length" by simp
next
  fix c :: code_unit and cs x2 x y
  assume "read_octet (c # cs) = Some x2" "(x, y) = x2"
  then have "length y < length (c # cs)" by (metis read_octet_shorter)
  then show "(y, c # cs) \<in> measure length" by simp
next
  fix c :: code_unit and cs x2 x y xa x2a xb ya
  assume "read_octet (c # cs) = Some x2" "(x, y) = x2" "read_octets (xa - 1) y = Some x2a"
    "(xb, ya) = x2a"
  then have "length y < length (c # cs)" "length ya \<le> length y"
    by (metis read_octet_shorter, metis read_octets_shorter)
  then show "(ya, c # cs) \<in> measure length" by simp
qed

definition decodeURIComponent :: "jsstring \<Rightarrow> jsstring option" where
  "decodeURIComponent s = Decode s"

section \<open>\<open>URLSearchParams\<close>\<close>

text \<open>
  \<open>new URLSearchParams(init)\<close> and \<open>get\<close>, after the URL standard: the string
  loses a leading \<open>?\<close> and is encoded in UTF-8 (an unpaired surrogate as
  \<open>U+FFFD\<close>); the bytes are split at \<open>&\<close>, each non-empty piece at its first
  \<open>=\<close>; in name and value \<open>+\<close> becomes a space, percent escapes are decoded and
  the bytes are read back as UTF-8, an ill-formed sequence giving \<open>U+FFFD\<close>.
  \<open>utf8_decode\<close> is the decoder of the Encoding standard; its state is code point,
  bytes seen, bytes needed, lower and upper boundary.
\<close>

fun usv :: "jsstring \<Rightarrow> nat list" where
  "usv [] = []"
| "usv (c # cs) =
     (if is_lead c then
        (case cs of
           [] \<Rightarrow> [0xFFFD]
         | d # ds \<Rightarrow> if is_trail d then pair_code_point c d # usv ds else 0xFFFD # usv cs)
      else if is_trail c then 0xFFFD # usv cs
      else unat c # usv cs)"

definition utf8_encode :: "jsstring \<Rightarrow> nat list" where
  "utf8_encode s = concat (map utf8 (usv s))"

type_synonym utf8_state = "nat \<times> nat \<times> nat \<times> nat \<times> nat"

definition utf8_start :: utf8_state where
  "utf8_start = (0, 0, 0, 0x80, 0xBF)"

definition utf8_lead :: "nat \<Rightarrow> nat list \<times> utf8_state" where
  "utf8_lead b =
     (if b \<le> 0x7F then ([b], utf8_start)
      else if 0xC2 \<le> b \<and> b \<le> 0xDF then ([], (b mod 32, 0, 1, 0x80, 0xBF))
      else if 0xE0 \<le> b \<and> b \<le> 0xEF
        then ([], (b mod 16, 0, 2, if b = 0xE0 then 0xA0 else 0x80, if b = 0xED then 0x9F else 0xBF))
      else if 0xF0 \<le> b \<and> b \<le> 0xF4
        then ([], (b mod 8, 0, 3, if b = 0xF0 then 0x90 else 0x80, if b = 0xF4 then 0x8F else 0xBF))
      else ([0xFFFD], utf8_start))"

fun utf8_decode :: "utf8_state \<Rightarrow> nat list \<Rightarrow> nat list" where
  "utf8_decode (cp, seen, needed, lower, upper) [] = (if needed \<noteq> 0 then [0xFFFD] else [])"
| "utf8_decode (cp, seen, needed, lower, upper) (b # bs) =
     (if needed = 0 then
        (case utf8_lead b of (out, st) \<Rightarrow> out @ utf8_decode st bs)
      else if b < lower \<or> upper < b then
        0xFFFD # (case utf8_lead b of (out, st) \<Rightarrow> out @ utf8_decode st bs)
      else if seen + 1 \<noteq> needed then
        utf8_decode (cp * 64 + b mod 64, seen + 1, needed, 0x80, 0xBF) bs
      else (cp * 64 + b mod 64) # utf8_decode utf8_start bs)"

definition utf8_decode_without_BOM :: "nat list \<Rightarrow> jsstring" where
  "utf8_decode_without_BOM bytes = concat (map utf16 (utf8_decode utf8_start bytes))"

definition hex_byte :: "nat \<Rightarrow> nat option" where
  "hex_byte b =
     (if 0x30 \<le> b \<and> b \<le> 0x39 then Some (b - 0x30)
      else if 0x41 \<le> b \<and> b \<le> 0x46 then Some (b - 0x37)
      else if 0x61 \<le> b \<and> b \<le> 0x66 then Some (b - 0x57)
      else None)"

fun percent_decode :: "nat list \<Rightarrow> nat list" where
  "percent_decode (b # h # l # rest) =
     (if b = 0x25 then
        (case (hex_byte h, hex_byte l) of
           (Some x, Some y) \<Rightarrow> (16 * x + y) # percent_decode rest
         | _ \<Rightarrow> b # percent_decode (h # l # rest))
      else b # percent_decode (h # l # rest))"
| "percent_decode (b # rest) = b # percent_decode rest"
| "percent_decode [] = []"

definition plus_to_space :: "nat list \<Rightarrow> nat list" where
  "plus_to_space bytes = map (\<lambda>b. if b = 0x2B then 0x20 else b) bytes"

definition urlencoded_pair :: "nat list \<Rightarrow> jsstring \<times> jsstring" where
  "urlencoded_pair bytes =
     (let name = takeWhile (\<lambda>b. b \<noteq> 0x3D) bytes;
          value = drop 1 (dropWhile (\<lambda>b. b \<noteq> 0x3D) bytes)
      in (utf8_decode_without_BOM (percent_decode (plus_to_space name)),
          utf8_decode_without_BOM (percent_decode (plus_to_space value))))"

definition urlencoded_parse :: "nat list \<Rightarrow> (jsstring \<times> jsstring) list" where
  "urlencoded_parse input = map urlencoded_pair (filter (\<lambda>bytes. bytes \<noteq> []) (split_on 0x26 input))"

definition URLSearchParams :: "jsstring \<Rightarrow> (jsstring \<times> jsstring) list" where
  "URLSearchParams init =
     urlencoded_parse (utf8_encode (case init of c # cs \<Rightarrow> if c = 63 then cs else init | [] \<Rightarrow> init))"

definition params_get :: "(jsstring \<times> jsstring) list \<Rightarrow> jsstring \<Rightarrow> jsstring option" where
  "params_get params name = map_of params name"

section \<open>\<open>parseInt\<close> and the string of a Number\<close>

text \<open>
  \<open>parseInt(string, 10)\<close>: leading white space is skipped, a sign is read, and the
  longest run of decimal digits is the value; with no digit the result is \<open>NaN\<close>.
  \<open>number_to_string\<close> is the conversion a template literal applies to a Number:
  the decimal digits for an integer of magnitude below \<open>10^21\<close>.
\<close>

definition StrWhiteSpaceChar :: "code_unit \<Rightarrow> bool" where
  "StrWhiteSpaceChar c =
     (let n = unat c
      in n \<in> {0x9, 0xA, 0xB, 0xC, 0xD, 0x20, 0xA0, 0x1680, 0x2028, 0x2029, 0x202F, 0x205F, 0x3000, 0xFEFF}
         \<or> (0x2000 \<le> n \<and> n \<le> 0x200A))"

definition decimal_digit :: "code_unit \<Rightarrow> bool" where
  "decimal_digit c \<longleftrightarrow> 48 \<le> unat c \<and> unat c \<le> 57"

definition decimal_value :: "jsstring \<Rightarrow> nat" where
  "decimal_value z = foldl (\<lambda>acc c. 10 * acc + (unat c - 48)) 0 z"

definition parseInt :: "jsstring \<Rightarrow> jsnumber" where
  "parseInt string =
     (let s = dropWhile StrWhiteSpaceChar string;
          negative = (case s of c # _ \<Rightarrow> c = 45 | [] \<Rightarrow> False);
          s' = (case s of c # cs \<Rightarrow> if c = 43 \<or> c = 45 then cs else s | [] \<Rightarrow> s);
          z = takeWhile decimal_digit s'
      in if z = [] then NaN
         else if negative then Num (- int (decimal_value z))
         else Num (int (decimal_value z)))"

fun decimal_digits :: "nat \<Rightarrow> jsstring" where
  "decimal_digits n =
     (if n < 10 then [cu (48 + n)] else decimal_digits (n div 10) @ [cu (48 + n mod 10)])"

declare decimal_digits.simps [simp del]

fun number_to_string :: "jsnumber \<Rightarrow> jsstring" where
  "number_to_string NaN = js ''NaN''"
| "number_to_string (Num i) =
     (if i < 0 then 45 # decimal_digits (nat (- i)) else decimal_digits (nat i))"

section \<open>The table of contents: \<open>TocEntry\<close>\<close>

text \<open>
  The interface \<open>TocEntry\<close> that the page imports from \<open>$lib/types\<close> (the
  declaration with \<open>$ref\<close> and \<open>url\<close> in \<open>src/unnamed/part_002\<close>). Optional
  fields are options; the field \<open>$ref\<close> is called \<open>ref\<close> here.
\<close>

datatype TocEntry = TocEntry
  (name: jsstring)
  (type: jsstring)
  (path: jsstring)
  (children: "TocEntry list option")
  (ref: "jsstring option")
  (url: "jsstring option")
  (title: "jsstring option")
  (summary: "jsstring option")
  (tags: "jsstring list option")
  (drug: "jsstring option")

text \<open>All entries of a loaded tree, the root first, children in their order.\<close>

fun nodes :: "TocEntry \<Rightarrow> TocEntry list"
  and nodes_list :: "TocEntry list \<Rightarrow> TocEntry list" where
  "nodes (TocEntry n t pth ch r u ti s tg d) =
     TocEntry n t pth ch r u ti s tg d #
       (case ch of Some cs \<Rightarrow> nodes_list cs | None \<Rightarrow> [])"
| "nodes_list [] = []"
| "nodes_list (child # rest) = nodes child @ nodes_list rest"

section \<open>The page: \<open>routes/+page.svelte\<close>\<close>

subsection \<open>\<open>findEntryByPath\<close>\<close>

text \<open>
  The recursive search of the page. \<open>findInChildren\<close> is its \<open>for\<close> loop over
  \<open>root.children\<close>: the first child whose search succeeds ends the loop. A missing
  \<open>children\<close> field is skipped; \<open>null\<close> is \<open>None\<close>.
\<close>

fun findEntryByPath :: "TocEntry \<Rightarrow> jsstring \<Rightarrow> TocEntry option"
  and findInChildren :: "TocEntry list \<Rightarrow> jsstring \<Rightarrow> TocEntry option" where
  "findEntryByPath (TocEntry n t pth ch r u ti s tg d) p =
     (if pth = p then Some (TocEntry n t pth ch r u ti s tg d)
      else case ch of
             Some cs \<Rightarrow> findInChildren cs p
           | None \<Rightarrow> None)"
| "findInChildren [] p = None"
| "findInChildren (child # rest) p =
     (case findEntryByPath child p of
        Some found \<Rightarrow> Some found
      | None \<Rightarrow> findInChildren rest p)"

subsection \<open>\<open>getParentPaths\<close>\<close>

text \<open>
  The loop \<open>for (let i = 1; i < parts.length; i++)\<close> adds
  \<open>parts.slice(0, i).join('/')\<close> to a \<open>Set\<close>.
\<close>

definition getParentPaths :: "jsstring \<Rightarrow> jsstring set" where
  "getParentPaths filePath =
     (let parts = split_on slash filePath
      in set (map (\<lambda>i. join slash (take i parts)) [1..<length parts]))"

subsection \<open>The location hash\<close>

text \<open>
  What the page keeps: the loaded tree, the selection, the expanded folders, the scroll
  position, and of \<open>window.location\<close> the URL's fragment.
\<close>

record page =
  toc :: "TocEntry option"
  selectedEntry :: "TocEntry option"
  expandedPaths :: "jsstring set"
  scrollPosition :: "jsnumber option"
  fragment :: jsstring

text \<open>The getter \<open>window.location.hash\<close>: empty for an empty fragment.\<close>

definition location_hash :: "page \<Rightarrow> jsstring" where
  "location_hash st = (if fragment st = [] then [] else 35 # fragment st)"

text \<open>
  \<open>window.history.replaceState(null, '', target)\<close> for a \<open>target\<close> that starts with
  \<open>#\<close>: the URL parser strips leading and trailing C0 controls and spaces, removes
  tabs and newlines, and in the fragment percent-encodes the code points of the fragment
  percent-encode set as UTF-8.
\<close>

definition c0_or_space :: "code_unit \<Rightarrow> bool" where
  "c0_or_space c \<longleftrightarrow> c \<le> 0x20"

definition tab_or_newline :: "code_unit \<Rightarrow> bool" where
  "tab_or_newline c \<longleftrightarrow> c = 0x9 \<or> c = 0xA \<or> c = 0xD"

definition fragment_percent_encode_set :: "nat \<Rightarrow> bool" where
  "fragment_percent_encode_set cp \<longleftrightarrow>
     cp \<le> 0x1F \<or> 0x7E < cp \<or> cp = 0x20 \<or> cp = 0x22 \<or> cp = 0x3C \<or> cp = 0x3E \<or> cp = 0x60"

definition fragment_code_point :: "nat \<Rightarrow> jsstring" where
  "fragment_code_point cp =
     (if fragment_percent_encode_set cp then percent_octets (utf8 cp) else [cu cp])"

definition replaceState :: "jsstring \<Rightarrow> page \<Rightarrow> page" where
  "replaceState target st =
     (let stripped = rev (dropWhile c0_or_space (rev (dropWhile c0_or_space target)));
          input = filter (\<lambda>c. \<not> tab_or_newline c) stripped
      in st\<lparr>fragment := concat (map fragment_code_point (usv (drop 1 input)))\<rparr>)"

subsection \<open>\<open>parseHash\<close>\<close>

text \<open>
  \<open>parseHash\<close> reads \<open>window.location.hash\<close>; the result is the pair of
  \<open>path\<close> and \<open>scroll\<close>, or \<open>None\<close> when \<open>decodeURIComponent\<close> throws.
  \<open>js_or\<close> is \<open>a || b\<close> on values that are a string or \<open>null\<close>: the first when
  it is a non-empty string, the second otherwise. The tests \<open>if (queryPart)\<close> and
  \<open>if (scrollParam)\<close> hold for a non-empty string and fail for \<open>undefined\<close>,
  \<open>null\<close> and the empty string.
\<close>

definition js_or :: "jsstring option \<Rightarrow> jsstring option \<Rightarrow> jsstring option" where
  "js_or a b = (case a of None \<Rightarrow> b | Some s \<Rightarrow> if s = [] then b else a)"

definition parseHash :: "page \<Rightarrow> (jsstring \<times> jsnumber option) option" where
  "parseHash st =
     (let hash = drop 1 (location_hash st)
      in if hash = [] then Some ([], None)
         else
           let parts = split_on 63 hash;
               pathPart = (case parts of p # _ \<Rightarrow> p | [] \<Rightarrow> []);
               queryPart = (case parts of _ # q # _ \<Rightarrow> Some q | _ \<Rightarrow> None)
           in case decodeURIComponent pathPart of
                None \<Rightarrow> None
              | Some pth \<Rightarrow>
                  Some (pth,
                    case queryPart of
                      None \<Rightarrow> None
                    | Some query \<Rightarrow>
                        if query = [] then None
                        else
                          let params = URLSearchParams query;
                              scrollParam = js_or (params_get params (js ''scroll''))
                                                  (params_get params (js ''page''))
                          in case scrollParam of
                               None \<Rightarrow> None
                             | Some v \<Rightarrow> if v = [] then None else Some (parseInt v)))"

subsection \<open>\<open>handleHashChange\<close>\<close>

definition handleHashChange :: "page \<Rightarrow> page option" where
  "handleHashChange st =
     (case parseHash st of
        None \<Rightarrow> None
      | Some (pth, scroll) \<Rightarrow>
          let st1 = st\<lparr>scrollPosition := scroll\<rparr>
          in Some (case toc st1 of
                     None \<Rightarrow> st1
                   | Some root \<Rightarrow>
                       if pth = [] then st1
                       else case findEntryByPath root pth of
                              None \<Rightarrow> st1
                            | Some entry \<Rightarrow>
                                st1\<lparr>selectedEntry := Some entry,
                                    expandedPaths := getParentPaths pth\<rparr>))"

subsection \<open>\<open>updateHash\<close>\<close>

text \<open>
  \<open>None\<close>: \<open>encodeURIComponent\<close> throws, before anything is written.
\<close>

definition updateHash :: "jsstring \<Rightarrow> jsnumber option \<Rightarrow> page \<Rightarrow> page option" where
  "updateHash pth scroll st =
     (case encodeURIComponent pth of
        None \<Rightarrow> None
      | Some encoded \<Rightarrow>
          let hash =
                (case scroll of
                   None \<Rightarrow> encoded
                 | Some n \<Rightarrow>
                     let param = (if map_option type (selectedEntry st) = Some (js ''pdf'')
                                  then js ''page'' else js ''scroll'')
                     in encoded @ js ''?'' @ param @ js ''='' @ number_to_string n)
          in Some (replaceState (35 # hash) st))"

section \<open>The document viewer\<close>


section \<open>The PDF viewer\<close>

text \<open>
  The component with \<open>loadPdf\<close>, \<open>renderPage\<close> and \<open>goToPage\<close> (its text is in
  \<open>src/web/vite.config.ts\<close>), and of its state what page navigation reads and writes. \<open>pdf\<close> is the loaded
  \<open>PDFDocumentProxy\<close> or \<open>null\<close>. \<open>renderPage\<close> draws on the canvas (or its
  promise rejects) and assigns none of these fields; \<open>goToPage\<close> assigns
  \<open>currentPage\<close> before it awaits \<open>renderPage\<close>, so the fields after a call do
  not depend on the drawing.
\<close>

record PDFDocumentProxy =
  numPages :: nat

record PdfViewer =
  pdf :: "PDFDocumentProxy option"
  currentPage :: jsnumber
  totalPages :: jsnumber

text \<open>The state before \<open>onMount\<close>: \<open>currentPage = initialPage\<close>, \<open>totalPages = 0\<close>.\<close>

definition mount :: "jsnumber \<Rightarrow> PdfViewer" where
  "mount initialPage = \<lparr>pdf = None, currentPage = initialPage, totalPages = Num 0\<rparr>"

text \<open>
  \<open>loadPdf\<close>, given what \<open>pdfjsLib.getDocument(url).promise\<close> settles to (\<open>None\<close>:
  it rejects, and the \<open>catch\<close> leaves the three fields as they are).
\<close>

definition loadPdf :: "PDFDocumentProxy option \<Rightarrow> PdfViewer \<Rightarrow> PdfViewer" where
  "loadPdf loaded st =
     (case loaded of
        None \<Rightarrow> st
      | Some doc \<Rightarrow>
          let st1 = st\<lparr>pdf := Some doc, totalPages := Num (int (numPages doc))\<rparr>;
              st2 = (if js_less (currentPage st1) (Num 1) then st1\<lparr>currentPage := Num 1\<rparr> else st1);
              st3 = (if js_greater (currentPage st2) (totalPages st2)
                     then st2\<lparr>currentPage := totalPages st2\<rparr> else st2)
          in st3)"

definition goToPage :: "jsnumber \<Rightarrow> PdfViewer \<Rightarrow> PdfViewer" where
  "goToPage pageNum st =
     (if pdf st = None \<or> js_less pageNum (Num 1) \<or> js_greater pageNum (totalPages st) then st
      else st\<lparr>currentPage := pageNum\<rparr>)"

definition prevPage :: "PdfViewer \<Rightarrow> PdfViewer" where
  "prevPage st = goToPage (js_minus (currentPage st) (Num 1)) st"

definition nextPage :: "PdfViewer \<Rightarrow> PdfViewer" where
  "nextPage st = goToPage (js_plus (currentPage st) (Num 1)) st"

text \<open>The page range \<open>1 \<le> currentPage \<le> totalPages\<close>, on Numbers.\<close>

fun page_in_range :: "PdfViewer \<Rightarrow> bool" where
  "page_in_range st =
     (case (currentPage st, totalPages st) of
        (Num c, Num t) \<Rightarrow> 1 \<le> c \<and> c \<le> t
      | _ \<Rightarrow> False)"

section \<open>Lazy fragments\<close>

text \<open>
  Modelled from the spec: no code under the sources fetches a \<open>$ref\<close>; the spec's
  client resolver is to "fetch and splice in the referenced fragment", and a fully
  expanded tree is one where each lazy reference is replaced by its fetched fragment.
  \<open>fetch\<close> maps a reference to the fragment it names (\<open>None\<close>: the fetch fails and the
  entry stays as it is). An entry with \<open>children\<close> is loaded and its children are
  expanded; an entry with a \<open>$ref\<close> and no \<open>children\<close> is replaced by its expanded
  fragment. Fragments may hold references again, so the expansion runs on fuel: one unit
  per fetch on a branch.
\<close>

fun expand :: "nat \<Rightarrow> (jsstring \<rightharpoonup> TocEntry) \<Rightarrow> TocEntry \<Rightarrow> TocEntry" where
  "expand fuel fetch (TocEntry n t pth ch r u ti s tg d) =
     (case ch of
        Some cs \<Rightarrow> TocEntry n t pth (Some (map (expand fuel fetch) cs)) r u ti s tg d
      | None \<Rightarrow>
          (case r of
             None \<Rightarrow> TocEntry n t pth ch r u ti s tg d
           | Some reference \<Rightarrow>
               (case fuel of
                  0 \<Rightarrow> TocEntry n t pth ch r u ti s tg d
                | Suc k \<Rightarrow>
                    (case fetch reference of
                       None \<Rightarrow> TocEntry n t pth ch r u ti s tg d
                     | Some fetched \<Rightarrow> expand k fetch fetched))))"

section \<open>The assembler of the table of contents\<close>

text \<open>
  The generator (\<open>generate_toc.py\<close>) is not among the sources; the definitions of this
  section follow the spec's data model and its components Metadata Loader, Tree Walker
  and TOC Assembler, and the metadata format document (\<open>src/unnamed/part_000\<close>).
\<close>

text \<open>
  Modelled from the spec: an entry of a \<open>metadata.json\<close> mapping as it is read, with
  the optional fields of the format (\<open>title\<close>, \<open>summary\<close>, \<open>drug\<close>, \<open>drugName\<close>,
  \<open>tags\<close>).
\<close>

record raw_entry =
  raw_title :: "jsstring option"
  raw_summary :: "jsstring option"
  raw_drug :: "jsstring option"
  raw_drugName :: "jsstring option"
  raw_tags :: "jsstring list option"

text \<open>
  Modelled from the spec: the \<open>FolderOverlay\<close> record, "optional \<open>title\<close>,
  \<open>summary\<close>, \<open>drug\<close>, \<open>drugName\<close>".
\<close>

record FolderOverlay =
  folder_title :: "jsstring option"
  folder_summary :: "jsstring option"
  folder_drug :: "jsstring option"
  folder_drugName :: "jsstring option"

text \<open>
  Modelled from the spec: the \<open>FileOverlay\<close> record, "optional \<open>title\<close>,
  \<open>summary\<close>, ordered-irrelevant set of \<open>tags\<close>".
\<close>

record FileOverlay =
  file_title :: "jsstring option"
  file_summary :: "jsstring option"
  file_tags :: "jsstring list option"

text \<open>
  Modelled from the spec: the metadata file of a directory as the loader finds it: not
  there, there but not parsable as the expected format, or a mapping from keys to
  entries.
\<close>

datatype metadata_file = Absent | Unparsable | Parsed "jsstring \<rightharpoonup> raw_entry"

text \<open>
  Modelled from the spec: the directory snapshot. A file has its name; a directory has
  its name, its metadata file and its listing in directory order (the metadata file is
  not an entry of the listing).
\<close>

datatype snapshot = File jsstring | Dir jsstring metadata_file "snapshot list"

text \<open>Modelled from the spec: the overlay with no field, for "no overlay".\<close>

definition no_overlay :: FolderOverlay where
  "no_overlay = \<lparr>folder_title = None, folder_summary = None, folder_drug = None,
     folder_drugName = None\<rparr>"

text \<open>
  Modelled from the spec: the Metadata Loader. It "fails softly (treats as no overlay)"
  on a missing or unparsable file; the entry under the reserved key \<open>_folder\<close> is the
  folder overlay, and "every other key is assumed to be a filename-keyed FileOverlay".
\<close>

definition load_metadata :: "metadata_file \<Rightarrow> FolderOverlay \<times> (jsstring \<rightharpoonup> FileOverlay)" where
  "load_metadata file =
     (case file of
        Absent \<Rightarrow> (no_overlay, Map.empty)
      | Unparsable \<Rightarrow> (no_overlay, Map.empty)
      | Parsed raw \<Rightarrow>
          ((case raw (js ''_folder'') of
              None \<Rightarrow> no_overlay
            | Some e \<Rightarrow> \<lparr>folder_title = raw_title e, folder_summary = raw_summary e,
                         folder_drug = raw_drug e, folder_drugName = raw_drugName e\<rparr>),
           (\<lambda>key. if key = js ''_folder'' then None
                  else map_option
                         (\<lambda>e. \<lparr>file_title = raw_title e, file_summary = raw_summary e,
                               file_tags = raw_tags e\<rparr>)
                         (raw key))))"

text \<open>
  Modelled from the spec: a node's \<open>path\<close> is "its parent's path + \<open>/\<close> + its name";
  the archive root has no parent and its path is its name.
\<close>

definition child_path :: "jsstring option \<Rightarrow> jsstring \<Rightarrow> jsstring" where
  "child_path parent nm = (case parent of None \<Rightarrow> nm | Some p \<Rightarrow> p @ slash # nm)"

text \<open>
  Modelled from the spec: the external reference of a split folder, "opaque pointer to a
  fragment"; here the address of the folder's own \<open>toc.json\<close>, as the comment on
  \<open>$ref\<close> in \<open>TocEntry\<close> has it.
\<close>

definition ref_of :: "jsstring \<Rightarrow> jsstring" where
  "ref_of pth = slash # pth @ js ''/toc.json''"

text \<open>
  Modelled from the spec: the node of a file. Title, summary and tags come "strictly from
  the matching FileOverlay in the current directory's loader output", the title falls back
  to the file name, and \<open>drug\<close> is the inherited value. \<open>kind\<close> gives the file-kind
  tag of a name; the spec says only that it is derived from the extension.
\<close>

definition file_node ::
  "(jsstring \<Rightarrow> jsstring) \<Rightarrow> jsstring option \<Rightarrow> jsstring option \<Rightarrow> (jsstring \<rightharpoonup> FileOverlay) \<Rightarrow>
   jsstring \<Rightarrow> TocEntry" where
  "file_node kind inherited parent overlays nm =
     TocEntry nm (kind nm) (child_path parent nm) None None None
       (Some (case Option.bind (overlays nm) file_title of Some t \<Rightarrow> t | None \<Rightarrow> nm))
       (Option.bind (overlays nm) file_summary)
       (Option.bind (overlays nm) file_tags)
       inherited"

text \<open>
  Modelled from the spec: the merge rule for \<open>drug\<close>, "node's own overlay \<open>drug\<close> if
  present, else the inherited value passed down from the parent call".
\<close>

definition merge_drug :: "FolderOverlay \<Rightarrow> jsstring option \<Rightarrow> jsstring option" where
  "merge_drug overlay inherited =
     (case folder_drug overlay of Some d \<Rightarrow> Some d | None \<Rightarrow> inherited)"

text \<open>
  Modelled from the spec: the Tree Walker. For a directory it loads the overlay, merges
  \<open>drug\<close>, and recurses into each entry of the listing with the merged value, in
  listing order. \<open>lazy\<close> is the lazy-loading threshold configuration: for the path and
  the snapshot of a folder it says whether the walker stops descending there and emits an
  external reference instead of the children. \<open>inline\<close> holds for the folder a fragment
  is made for (the archive root, or a split folder in its own fragment): its children are
  emitted whatever \<open>lazy\<close> says.
\<close>

fun walk ::
  "(jsstring \<Rightarrow> jsstring) \<Rightarrow> (jsstring \<Rightarrow> snapshot \<Rightarrow> bool) \<Rightarrow> bool \<Rightarrow> jsstring option \<Rightarrow>
   jsstring option \<Rightarrow> (jsstring \<rightharpoonup> FileOverlay) \<Rightarrow> snapshot \<Rightarrow> TocEntry" where
  "walk kind lazy inline inherited parent overlays (File nm) =
     file_node kind inherited parent overlays nm"
| "walk kind lazy inline inherited parent overlays (Dir nm meta listing) =
     (let overlay = load_metadata meta;
          pth = child_path parent nm;
          merged = merge_drug (fst overlay) inherited;
          ttl = (case folder_title (fst overlay) of Some t \<Rightarrow> t | None \<Rightarrow> nm)
      in if \<not> inline \<and> lazy pth (Dir nm meta listing)
         then TocEntry nm (js ''folder'') pth None (Some (ref_of pth)) None
                (Some ttl) (folder_summary (fst overlay)) None merged
         else TocEntry nm (js ''folder'') pth
                (Some (map (walk kind lazy False merged (Some pth) (snd overlay)) listing))
                None None (Some ttl) (folder_summary (fst overlay)) None merged)"

text \<open>
  Modelled from the spec: the fragments behind the external references of a walk: for
  every split folder its reference and the node that "yields the equivalent of continuing
  the walk into that subtree", the folder walked inline.
\<close>

fun fragments ::
  "(jsstring \<Rightarrow> jsstring) \<Rightarrow> (jsstring \<Rightarrow> snapshot \<Rightarrow> bool) \<Rightarrow> bool \<Rightarrow> jsstring option \<Rightarrow>
   jsstring option \<Rightarrow> (jsstring \<rightharpoonup> FileOverlay) \<Rightarrow> snapshot \<Rightarrow> (jsstring \<times> TocEntry) list" where
  "fragments kind lazy inline inherited parent overlays (File nm) = []"
| "fragments kind lazy inline inherited parent overlays (Dir nm meta listing) =
     (let overlay = load_metadata meta;
          pth = child_path parent nm;
          merged = merge_drug (fst overlay) inherited
      in (if \<not> inline \<and> lazy pth (Dir nm meta listing)
          then [(ref_of pth, walk kind lazy True inherited parent overlays (Dir nm meta listing))]
          else []) @
         concat (map (fragments kind lazy False merged (Some pth) (snd overlay)) listing))"

text \<open>
  Modelled from the spec: the TOC Assembler, which "wraps the Tree Walker's output for the
  archive root": the root is walked inline, with no inherited \<open>drug\<close> and no parent.
  \<open>assemble_fragments\<close> are the fragments that go with it, and \<open>never\<close> is the
  configuration with lazy loading disabled.
\<close>

definition assemble :: "(jsstring \<Rightarrow> jsstring) \<Rightarrow> (jsstring \<Rightarrow> snapshot \<Rightarrow> bool) \<Rightarrow> snapshot \<Rightarrow> TocEntry" where
  "assemble kind lazy root = walk kind lazy True None None Map.empty root"

text \<open>Modelled from the spec: the fragments emitted with the assembled tree.\<close>

definition assemble_fragments ::
  "(jsstring \<Rightarrow> jsstring) \<Rightarrow> (jsstring \<Rightarrow> snapshot \<Rightarrow> bool) \<Rightarrow> snapshot \<Rightarrow> (jsstring \<times> TocEntry) list" where
  "assemble_fragments kind lazy root = fragments kind lazy True None None Map.empty root"

text \<open>Modelled from the spec: the configuration with lazy loading disabled.\<close>

definition never :: "jsstring \<Rightarrow> snapshot \<Rightarrow> bool" where
  "never pth folder = False"

section \<open>Snapshots and trees, node by node\<close>

text \<open>
  What the statements about the assembler speak of. A node is addressed by the positions
  taken from the root down, in the snapshot and in the emitted tree alike.
\<close>

fun entry_name :: "snapshot \<Rightarrow> jsstring" where
  "entry_name (File nm) = nm"
| "entry_name (Dir nm meta listing) = nm"

fun snapshot_at :: "snapshot \<Rightarrow> nat list \<Rightarrow> snapshot option" where
  "snapshot_at node [] = Some node"
| "snapshot_at (File nm) (i # rest) = None"
| "snapshot_at (Dir nm meta listing) (i # rest) =
     (if i < length listing then snapshot_at (listing ! i) rest else None)"

fun entry_at :: "TocEntry \<Rightarrow> nat list \<Rightarrow> TocEntry option" where
  "entry_at node [] = Some node"
| "entry_at (TocEntry n t pth ch r u ti s tg d) (i # rest) =
     (case ch of
        None \<Rightarrow> None
      | Some cs \<Rightarrow> if i < length cs then entry_at (cs ! i) rest else None)"

text \<open>
  The chain of a node: the node itself first, then its parent, up to the root.
  \<open>lineage_from upper\<close> puts the chain of the addressed node on top of \<open>upper\<close>.
\<close>

fun lineage_from :: "snapshot list \<Rightarrow> snapshot \<Rightarrow> nat list \<Rightarrow> snapshot list" where
  "lineage_from upper node [] = node # upper"
| "lineage_from upper (File nm) (i # rest) = File nm # upper"
| "lineage_from upper (Dir nm meta listing) (i # rest) =
     (if i < length listing
      then lineage_from (Dir nm meta listing # upper) (listing ! i) rest
      else Dir nm meta listing # upper)"

definition lineage :: "snapshot \<Rightarrow> nat list \<Rightarrow> snapshot list" where
  "lineage root position = lineage_from [] root position"

text \<open>
  The \<open>drug\<close> that a node's own overlay defines: for a folder the one of its
  \<open>_folder\<close> entry; a file overlay has no such field.
\<close>

fun own_drug :: "snapshot \<Rightarrow> jsstring option" where
  "own_drug (File nm) = None"
| "own_drug (Dir nm meta listing) = folder_drug (fst (load_metadata meta))"

text \<open>The first \<open>drug\<close> defined on a chain, from the node upwards.\<close>

fun nearest_drug :: "snapshot list \<Rightarrow> jsstring option" where
  "nearest_drug [] = None"
| "nearest_drug (node # upper) =
     (case own_drug node of Some d \<Rightarrow> Some d | None \<Rightarrow> nearest_drug upper)"

text \<open>
  The title that the overlays define for the node at a position: for a folder the title
  of its own \<open>_folder\<close> entry, for a file the title of the entry under its name in the
  metadata of its directory.
\<close>

fun overlay_title :: "(jsstring \<rightharpoonup> FileOverlay) \<Rightarrow> snapshot \<Rightarrow> nat list \<Rightarrow> jsstring option" where
  "overlay_title overlays (File nm) [] = Option.bind (overlays nm) file_title"
| "overlay_title overlays (Dir nm meta listing) [] = folder_title (fst (load_metadata meta))"
| "overlay_title overlays (File nm) (i # rest) = None"
| "overlay_title overlays (Dir nm meta listing) (i # rest) =
     (if i < length listing
      then overlay_title (snd (load_metadata meta)) (listing ! i) rest
      else None)"

text \<open>
  A snapshot of a file system: names are not empty and hold no \<open>/\<close>, and the entries of
  one directory have different names.
\<close>

fun well_named :: "snapshot \<Rightarrow> bool" where
  "well_named (File nm) \<longleftrightarrow> nm \<noteq> [] \<and> slash \<notin> set nm"
| "well_named (Dir nm meta listing) \<longleftrightarrow>
     nm \<noteq> [] \<and> slash \<notin> set nm \<and> distinct (map entry_name listing) \<and>
     (\<forall>entry \<in> set listing. well_named entry)"

text \<open>The number of folders on the longest branch.\<close>

fun depth :: "snapshot \<Rightarrow> nat" where
  "depth (File nm) = 0"
| "depth (Dir nm meta listing) = Suc (foldr max (map depth listing) 0)"

text \<open>The paths of all nodes of a snapshot placed under \<open>parent\<close>, the node's own first.\<close>

fun paths :: "jsstring option \<Rightarrow> snapshot \<Rightarrow> jsstring list" where
  "paths parent (File nm) = [child_path parent nm]"
| "paths parent (Dir nm meta listing) =
     child_path parent nm # concat (map (paths (Some (child_path parent nm))) listing)"

text \<open>What is compared of a node: its path and its merged fields.\<close>

definition node_fields ::
  "TocEntry \<Rightarrow> jsstring \<times> jsstring option \<times> jsstring option \<times> jsstring list option \<times> jsstring option" where
  "node_fields entry = (path entry, title entry, summary entry, tags entry, drug entry)"

section \<open>Example trees\<close>

text \<open>
  A small archive: the root folder, one folder \<open>A\<close> and one file in it. In
  \<open>lazy_root\<close> the folder \<open>A\<close> is not loaded: it carries a \<open>$ref\<close> and no
  \<open>children\<close>.
\<close>

definition doc_entry :: TocEntry where
  "doc_entry = TocEntry (js ''x.pdf'') (js ''pdf'') (js ''d/A/x.pdf'')
     None None None (Some (js ''x.pdf'')) None None (Some (js ''X''))"

definition folder_entry :: TocEntry where
  "folder_entry = TocEntry (js ''A'') (js ''folder'') (js ''d/A'')
     (Some [doc_entry]) None None (Some (js ''A'')) None None (Some (js ''X''))"

definition full_root :: TocEntry where
  "full_root = TocEntry (js ''d'') (js ''folder'') (js ''d'')
     (Some [folder_entry]) None None (Some (js ''d'')) None None None"

definition lazy_folder_entry :: TocEntry where
  "lazy_folder_entry = TocEntry (js ''A'') (js ''folder'') (js ''d/A'')
     None (Some (js ''/d/A/toc.json'')) None (Some (js ''A'')) None None (Some (js ''X''))"

definition lazy_root :: TocEntry where
  "lazy_root = TocEntry (js ''d'') (js ''folder'') (js ''d'')
     (Some [lazy_folder_entry]) None None (Some (js ''d'')) None None None"

text \<open>A page that has loaded the archive and shows the PDF file.\<close>

definition shown_page :: page where
  "shown_page = \<lparr>toc = Some full_root, selectedEntry = Some doc_entry, expandedPaths = {},
     scrollPosition = None, fragment = []\<rparr>"

text \<open>
  The snapshot behind the example trees: the root \<open>d\<close> has no metadata file, its
  folder \<open>A\<close> defines \<open>drug\<close> as \<open>X\<close>, and the file \<open>x.pdf\<close> has no entry. The
  configuration \<open>split_A\<close> stops at the folder \<open>d/A\<close>.
\<close>

definition drug_X :: raw_entry where
  "drug_X = \<lparr>raw_title = None, raw_summary = None, raw_drug = Some (js ''X''),
     raw_drugName = None, raw_tags = None\<rparr>"

definition archive :: snapshot where
  "archive = Dir (js ''d'') Absent
     [Dir (js ''A'') (Parsed [js ''_folder'' \<mapsto> drug_X]) [File (js ''x.pdf'')]]"

definition split_A :: "jsstring \<Rightarrow> snapshot \<Rightarrow> bool" where
  "split_A pth folder \<longleftrightarrow> pth = js ''d/A''"

definition as_pdf :: "jsstring \<Rightarrow> jsstring" where
  "as_pdf nm = js ''pdf''"

section \<open>Character classes\<close>

text \<open>
  Two classes of code units for the statements below: ASCII, and the printable ASCII
  units that the URL parser keeps as they are in a fragment.
\<close>

definition ascii :: "code_unit \<Rightarrow> bool" where
  "ascii c \<longleftrightarrow> unat c < 128"

definition fragment_plain :: "code_unit \<Rightarrow> bool" where
  "fragment_plain c \<longleftrightarrow>
     0x21 \<le> unat c \<and> unat c \<le> 0x7E \<and> unat c \<noteq> 0x22 \<and> unat c \<noteq> 0x3C \<and> unat c \<noteq> 0x3E \<and>
     unat c \<noteq> 0x60"

section \<open>Properties of \<open>split\<close> and \<open>join\<close>\<close>

lemma split_on_nonempty: "split_on sep s \<noteq> []"
  by (induction s) (auto split: list.splits)

lemma join_split_on: "join sep (split_on sep s) = s"
proof (induction s)
  case Nil
  show ?case by simp
next
  case (Cons c cs)
  obtain piece pieces where sp: "split_on sep cs = piece # pieces"
    using split_on_nonempty [of sep cs] by (cases "split_on sep cs") auto
  show ?case
  proof (cases "c = sep")
    case True
    with Cons sp show ?thesis by simp
  next
    case False
    with Cons sp show ?thesis by (cases pieces) auto
  qed
qed

lemma join_append:
  "xs \<noteq> [] \<Longrightarrow> ys \<noteq> [] \<Longrightarrow> join sep (xs @ ys) = join sep xs @ sep # join sep ys"
proof (induction xs rule: join.induct)
  case (1 sep)
  then show ?case by simp
next
  case (2 sep x)
  then show ?case by (cases ys) auto
next
  case (3 sep x y ys')
  then show ?case by simp
qed

lemma join_take_drop:
  assumes "1 \<le> i" and "i < length parts"
  shows "join sep parts = join sep (take i parts) @ sep # join sep (drop i parts)"
proof -
  have "take i parts \<noteq> []" and "drop i parts \<noteq> []"
    using assms by auto
  then have "join sep (take i parts @ drop i parts)
      = join sep (take i parts) @ sep # join sep (drop i parts)"
    by (rule join_append)
  then show ?thesis by simp
qed

lemma join_take_shorter:
  assumes "1 \<le> i" and "i < j" and "j \<le> length parts"
  shows "length (join sep (take i parts)) < length (join sep (take j parts))"
proof -
  have "i < length (take j parts)" using assms by simp
  with assms(1) have "join sep (take j parts)
      = join sep (take i (take j parts)) @ sep # join sep (drop i (take j parts))"
    by (rule join_take_drop)
  moreover have "take i (take j parts) = take i parts"
    using assms by (simp add: min_def)
  ultimately show ?thesis by simp
qed

lemma join_take_inj:
  "inj_on (\<lambda>i. join sep (take i parts)) {1..<length parts}"
proof (rule linorder_inj_onI)
  fix i j
  assume "i < j" and "i \<in> {1..<length parts}" and "j \<in> {1..<length parts}"
  then have "length (join sep (take i parts)) < length (join sep (take j parts))"
    by (intro join_take_shorter) auto
  then show "join sep (take i parts) \<noteq> join sep (take j parts)" by auto
qed auto

section \<open>Properties of \<open>findEntryByPath\<close>\<close>

lemma findEntryByPath_unfold:
  "findEntryByPath root p =
     (if path root = p then Some root
      else case children root of Some cs \<Rightarrow> findInChildren cs p | None \<Rightarrow> None)"
  by (cases root) simp

lemma nodes_unfold:
  "nodes root = root # (case children root of Some cs \<Rightarrow> nodes_list cs | None \<Rightarrow> [])"
  by (cases root) simp

lemma find_over_append:
  "List.find P (xs @ ys) = (case List.find P xs of Some x \<Rightarrow> Some x | None \<Rightarrow> List.find P ys)"
  by (induction xs) auto

lemma find_is_first_match:
  "findEntryByPath root p = List.find (\<lambda>n. path n = p) (nodes root)"
  "findInChildren cs p = List.find (\<lambda>n. path n = p) (nodes_list cs)"
proof (induction root p and cs p rule: findEntryByPath_findInChildren.induct)
  case (1 n t pth ch r u ti s tg d p)
  then show ?case by (cases ch) auto
next
  case (2 p)
  show ?case by simp
next
  case (3 child rest p)
  show ?case
  proof (cases "findEntryByPath child p")
    case None
    with 3 show ?thesis by (simp add: find_over_append)
  next
    case (Some found)
    with 3(1) have "List.find (\<lambda>n. path n = p) (nodes child) = Some found" by simp
    with Some show ?thesis by (simp add: find_over_append)
  qed
qed

text \<open>
  C2. The resolver returns an entry of the tree whose \<open>path\<close> is the requested one
  when there is one (the first in document order; the only one when paths are unique),
  and \<open>null\<close> exactly when no entry of the tree has that path. It is a total function:
  no input makes it throw.
\<close>

theorem findEntryByPath_resolves:
  "(\<forall>n. findEntryByPath root P = Some n \<longrightarrow> n \<in> set (nodes root) \<and> path n = P) \<and>
   (findEntryByPath root P = None \<longleftrightarrow> P \<notin> path ` set (nodes root)) \<and>
   (distinct (map path (nodes root)) \<longrightarrow>
      (\<forall>n \<in> set (nodes root). findEntryByPath root (path n) = Some n))"
proof (intro conjI allI impI ballI)
  fix n
  assume "findEntryByPath root P = Some n"
  then have "List.find (\<lambda>n. path n = P) (nodes root) = Some n"
    by (simp add: find_is_first_match)
  then show "n \<in> set (nodes root)" and "path n = P"
    by (auto simp: find_Some_iff)
next
  show "findEntryByPath root P = None \<longleftrightarrow> P \<notin> path ` set (nodes root)"
    by (auto simp: find_is_first_match find_None_iff)
next
  fix n
  assume d: "distinct (map path (nodes root))" and n: "n \<in> set (nodes root)"
  obtain m where m: "List.find (\<lambda>k. path k = path n) (nodes root) = Some m"
    using n by (cases "List.find (\<lambda>k. path k = path n) (nodes root)")
      (auto simp: find_None_iff)
  then have "m \<in> set (nodes root)" and "path m = path n"
    by (auto simp: find_Some_iff)
  with d n have "m = n"
    by (meson distinct_map inj_onD)
  with m show "findEntryByPath root (path n) = Some n"
    by (simp add: find_is_first_match)
qed

text \<open>The resolver on the example archive.\<close>

theorem findEntryByPath_resolves_witness:
  "distinct (map path (nodes full_root)) \<and> doc_entry \<in> set (nodes full_root) \<and>
   findEntryByPath full_root (path doc_entry) = Some doc_entry \<and>
   js ''d/B'' \<notin> path ` set (nodes full_root) \<and>
   findEntryByPath full_root (js ''d/B'') = None"
proof -
  have d: "distinct (map path (nodes full_root))"
    by (simp add: full_root_def folder_entry_def doc_entry_def js_def cu_def)
  have m: "doc_entry \<in> set (nodes full_root)"
    by (simp add: full_root_def folder_entry_def doc_entry_def)
  have u: "js ''d/B'' \<notin> path ` set (nodes full_root)"
    by (simp add: full_root_def folder_entry_def doc_entry_def js_def cu_def)
  from findEntryByPath_resolves [of full_root "path doc_entry"] d m
  have "findEntryByPath full_root (path doc_entry) = Some doc_entry" by blast
  moreover from findEntryByPath_resolves [of full_root "js ''d/B''"] u
  have "findEntryByPath full_root (js ''d/B'') = None" by blast
  ultimately show ?thesis using d m u by blast
qed

section \<open>Properties of \<open>getParentPaths\<close>\<close>

text \<open>
  C7. For a path of \<open>k\<close> segments the ancestor chain is the set of the joins of the
  first \<open>1 .. k-1\<close> segments; these are \<open>k-1\<close> different paths, each of them is
  followed in the path by a \<open>/\<close>, and the full path is not one of them.
\<close>

theorem getParentPaths_proper_prefixes:
  "getParentPaths p =
     {join slash (take i (split_on slash p)) | i. 1 \<le> i \<and> i < length (split_on slash p)} \<and>
   card (getParentPaths p) + 1 = length (split_on slash p) \<and>
   (\<forall>q \<in> getParentPaths p. \<exists>rest. p = q @ slash # rest) \<and>
   p \<notin> getParentPaths p"
proof (intro conjI)
  let ?parts = "split_on slash p"
  have img: "getParentPaths p = (\<lambda>i. join slash (take i ?parts)) ` {1..<length ?parts}"
    by (simp add: getParentPaths_def Let_def)
  show "getParentPaths p = {join slash (take i ?parts) | i. 1 \<le> i \<and> i < length ?parts}"
    unfolding img by auto
  have "card (getParentPaths p) = card {1..<length ?parts}"
    unfolding img by (rule card_image) (rule join_take_inj)
  moreover have "1 \<le> length ?parts"
    using split_on_nonempty [of slash p] by (cases ?parts) auto
  ultimately show "card (getParentPaths p) + 1 = length ?parts" by simp
  show prefixes: "\<forall>q \<in> getParentPaths p. \<exists>rest. p = q @ slash # rest"
  proof
    fix q
    assume "q \<in> getParentPaths p"
    then obtain i where i: "1 \<le> i" "i < length ?parts" and q: "q = join slash (take i ?parts)"
      unfolding img by auto
    from join_take_drop [OF i, of slash]
    have "join slash ?parts = q @ slash # join slash (drop i ?parts)" by (simp only: q)
    then have "p = q @ slash # join slash (drop i ?parts)" by (simp only: join_split_on)
    then show "\<exists>rest. p = q @ slash # rest" ..
  qed
  show "p \<notin> getParentPaths p"
  proof
    assume "p \<in> getParentPaths p"
    with prefixes obtain rest where "p = p @ slash # rest" by blast
    then show False by simp
  qed
qed

text \<open>The example of the source's comment, shortened.\<close>

theorem getParentPaths_proper_prefixes_witness:
  "getParentPaths (js ''d/A/x.pdf'') = {js ''d'', js ''d/A''} \<and>
   card (getParentPaths (js ''d/A/x.pdf'')) = 2 \<and>
   js ''d/A/x.pdf'' \<notin> getParentPaths (js ''d/A/x.pdf'')"
proof -
  have parts: "split_on slash (js ''d/A/x.pdf'') = [js ''d'', js ''A'', js ''x.pdf'']"
    by (simp add: js_def cu_def slash_def)
  have idx: "[1..<length [js ''d'', js ''A'', js ''x.pdf'']] = [1, 2]"
    by (simp add: eval_nat_numeral)
  have "getParentPaths (js ''d/A/x.pdf'') =
      set (map (\<lambda>i. join slash (take i [js ''d'', js ''A'', js ''x.pdf'']))
        [1..<length [js ''d'', js ''A'', js ''x.pdf'']])"
    by (simp only: getParentPaths_def parts Let_def)
  also have "\<dots> = set (map (\<lambda>i. join slash (take i [js ''d'', js ''A'', js ''x.pdf''])) [1, 2])"
    by (simp only: idx)
  also have "\<dots> = {js ''d'', js ''d/A''}"
    by (simp add: js_def cu_def slash_def)
  finally have set: "getParentPaths (js ''d/A/x.pdf'') = {js ''d'', js ''d/A''}" .
  from getParentPaths_proper_prefixes [of "js ''d/A/x.pdf''"]
  have "card (getParentPaths (js ''d/A/x.pdf'')) + 1 = length (split_on slash (js ''d/A/x.pdf''))"
    and "js ''d/A/x.pdf'' \<notin> getParentPaths (js ''d/A/x.pdf'')"
    by blast+
  then show ?thesis using set by (simp add: parts)
qed

section \<open>Page navigation in the PDF viewer\<close>

text \<open>
  With integer page numbers the guards do what they are there for: \<open>loadPdf\<close> clamps
  into the range, the three operations keep it, and a page number outside the range
  changes nothing.
\<close>

lemma goToPage_integer_in_range:
  assumes "page_in_range st"
  shows "page_in_range (goToPage (Num n) st)"
  using assms
  by (cases "currentPage st"; cases "totalPages st")
     (auto simp: goToPage_def js_greater_def)

lemma prevPage_in_range: "page_in_range st \<Longrightarrow> page_in_range (prevPage st)"
  by (cases "currentPage st"; cases "totalPages st")
     (auto simp: prevPage_def goToPage_def js_greater_def)

lemma nextPage_in_range: "page_in_range st \<Longrightarrow> page_in_range (nextPage st)"
  by (cases "currentPage st"; cases "totalPages st")
     (auto simp: nextPage_def goToPage_def js_greater_def)

lemma goToPage_integer_out_of_range:
  "n < 1 \<or> int t < n \<Longrightarrow> totalPages st = Num (int t) \<Longrightarrow> goToPage (Num n) st = st"
  by (auto simp: goToPage_def js_greater_def)

lemma loadPdf_integer_in_range:
  assumes "0 < numPages doc"
  shows "page_in_range (loadPdf (Some doc) (mount (Num n)))"
  using assms by (auto simp: loadPdf_def mount_def Let_def js_greater_def)

text \<open>
  C10. With a three-page document loaded at page 1, \<open>goToPage(NaN)\<close> passes the guard
  \<open>pageNum < 1 || pageNum > totalPages\<close> (both comparisons are false on \<open>NaN\<close>) and
  assigns \<open>currentPage = NaN\<close>: the page is changed by a number outside
  \<open>1 .. totalPages\<close> and leaves the range, and \<open>prevPage\<close> and \<open>nextPage\<close> keep it
  there. \<open>NaN\<close> is what the page box passes for an empty field
  (\<open>goToPage(parseInt(e.currentTarget.value))\<close>).
\<close>

theorem goToPage_NaN_leaves_range:
  "parseInt [] = NaN \<and>
   page_in_range (loadPdf (Some \<lparr>numPages = 3\<rparr>) (mount (Num 1))) \<and>
   currentPage (loadPdf (Some \<lparr>numPages = 3\<rparr>) (mount (Num 1))) = Num 1 \<and>
   currentPage (goToPage NaN (loadPdf (Some \<lparr>numPages = 3\<rparr>) (mount (Num 1)))) = NaN \<and>
   page_in_range (goToPage NaN (loadPdf (Some \<lparr>numPages = 3\<rparr>) (mount (Num 1)))) = False \<and>
   currentPage (nextPage (goToPage NaN (loadPdf (Some \<lparr>numPages = 3\<rparr>) (mount (Num 1))))) = NaN \<and>
   currentPage (prevPage (goToPage NaN (loadPdf (Some \<lparr>numPages = 3\<rparr>) (mount (Num 1))))) = NaN"
  by (simp add: parseInt_def loadPdf_def mount_def goToPage_def nextPage_def prevPage_def
      js_greater_def Let_def)

section \<open>The round trip of \<open>encodeURIComponent\<close> and \<open>decodeURIComponent\<close>\<close>

subsection \<open>Octets\<close>

lemma unat_cu: "n < 65536 \<Longrightarrow> unat (cu n) = n"
  by (simp add: cu_def unat_of_nat)

lemma cu_unat: "cu (unat c) = c"
  by (simp add: cu_def)

lemma hex_value_hex_digit: "d < 16 \<Longrightarrow> hex_value (hex_digit d) = Some d"
  by (simp add: hex_value_def hex_digit_def unat_cu Let_def)

lemma read_octet_percent: "b < 256 \<Longrightarrow> read_octet (percent_octet b @ rest) = Some (b, rest)"
  by (simp add: percent_octet_def hex_value_hex_digit)

lemma read_octets_percent:
  "\<forall>b \<in> set bs. b < 256 \<Longrightarrow> read_octets (length bs) (percent_octets bs @ rest) = Some (bs, rest)"
proof (induction bs)
  case Nil
  show ?case by (simp add: percent_octets_def)
next
  case (Cons b bs)
  then have "read_octets (length bs) (percent_octets bs @ rest) = Some (bs, rest)" by simp
  moreover have "read_octet (percent_octet b @ (percent_octets bs @ rest)) = Some (b, percent_octets bs @ rest)"
    using Cons.prems by (simp add: read_octet_percent)
  ultimately show ?case by (simp add: percent_octets_def)
qed

lemma Decode_percent:
  "b < 256 \<Longrightarrow> Decode (percent_octet b @ e) =
     (let n = leading_ones b
      in if n = 0 then map_option ((#) (cu b)) (Decode e)
         else if n = 1 \<or> 4 < n then None
         else case read_octets (n - 1) e of
                None \<Rightarrow> None
              | Some (bs, rest') \<Rightarrow>
                  (case utf8_code_point (b # bs) of
                     None \<Rightarrow> None
                   | Some v \<Rightarrow> map_option ((@) (utf16 v)) (Decode rest')))"
proof -
  assume b: "b < 256"
  have "percent_octet b @ e = 37 # (hex_digit (b div 16) # hex_digit (b mod 16) # e)"
    by (simp add: percent_octet_def)
  moreover have "read_octet (37 # (hex_digit (b div 16) # hex_digit (b mod 16) # e)) = Some (b, e)"
    using read_octet_percent [OF b, of e] by (simp add: percent_octet_def)
  ultimately show ?thesis by (simp del: read_octet.simps)
qed

subsection \<open>The UTF-8 encoding of a code point is read back\<close>

lemma mask_gen: "q < m \<Longrightarrow> (k * m + q) mod m = (q::nat)"
  by simp
lemma mask_lead2: "q < 32 \<Longrightarrow> (192 + q) mod 32 = (q::nat)"
  using mask_gen [of q 32 6] by simp
lemma mask_lead3: "q < 16 \<Longrightarrow> (224 + q) mod 16 = (q::nat)"
  using mask_gen [of q 16 14] by simp
lemma mask_lead4: "q < 8 \<Longrightarrow> (240 + q) mod 8 = (q::nat)"
  using mask_gen [of q 8 30] by simp
lemma mask_cont: "(128 + r mod 64) mod 64 = (r::nat) mod 64"
  using mask_gen [of "r mod 64" 64 2] by simp

lemma div_4096: "(cp::nat) div 4096 = cp div 64 div 64"
  by (simp add: div_mult2_eq [symmetric])
lemma div_262144: "(cp::nat) div 262144 = cp div 64 div 64 div 64"
  by (simp add: div_mult2_eq [symmetric])

lemma sextets_2: "cp div 64 * 64 + cp mod 64 = (cp::nat)"
  by (rule div_mult_mod_eq)

lemma sextets_3: "(cp div 4096 * 64 + cp div 64 mod 64) * 64 + cp mod 64 = (cp::nat)"
proof -
  have "cp div 64 div 64 * 64 + cp div 64 mod 64 = cp div 64"
    by (rule div_mult_mod_eq)
  then have a: "cp div 4096 * 64 + cp div 64 mod 64 = cp div 64"
    by (simp only: div_4096)
  show ?thesis by (subst a) (rule div_mult_mod_eq)
qed

lemma sextets_4:
  "((cp div 262144 * 64 + cp div 4096 mod 64) * 64 + cp div 64 mod 64) * 64 + cp mod 64 = (cp::nat)"
proof -
  have "cp div 64 div 64 div 64 * 64 + cp div 64 div 64 mod 64 = cp div 64 div 64"
    by (rule div_mult_mod_eq)
  then have a: "cp div 262144 * 64 + cp div 4096 mod 64 = cp div 4096"
    by (simp only: div_4096 div_262144)
  show ?thesis by (subst a) (rule sextets_3)
qed

lemma lead_2: "cp < 0x800 \<Longrightarrow> (cp::nat) div 64 < 32"
  by (simp add: less_mult_imp_div_less)
lemma lead_3: "cp < 0x10000 \<Longrightarrow> (cp::nat) div 4096 < 16"
  by (simp add: less_mult_imp_div_less)
lemma lead_4: "cp \<le> 0x10FFFF \<Longrightarrow> (cp::nat) div 262144 < 8"
  by (simp add: less_mult_imp_div_less)


lemma utf8_code_point_2:
  assumes "0x80 \<le> cp" "cp < 0x800"
  shows "utf8_code_point [0xC0 + cp div 64, 0x80 + cp mod 64] = Some cp"
proof -
  have v: "(192 + cp div 64) mod 32 * 64 + (128 + cp mod 64) mod 64 = cp"
    by (simp only: mask_lead2 [OF lead_2 [OF assms(2)]] mask_cont sextets_2)
  have c: "continuation (128 + cp mod 64)"
    by (simp add: continuation_def)
  show ?thesis
    unfolding utf8_code_point.simps Let_def by (subst v)+ (use assms c in simp)
qed

lemma utf8_code_point_3:
  assumes "0x800 \<le> cp" "cp < 0x10000" "cp < 0xD800 \<or> 0xDFFF < cp"
  shows "utf8_code_point [0xE0 + cp div 4096, 0x80 + cp div 64 mod 64, 0x80 + cp mod 64] = Some cp"
proof -
  have v: "((224 + cp div 4096) mod 16 * 64 + (128 + cp div 64 mod 64) mod 64) * 64
             + (128 + cp mod 64) mod 64 = cp"
    by (simp only: mask_lead3 [OF lead_3 [OF assms(2)]] mask_cont mod_mod_trivial sextets_3)
  have c: "continuation (128 + cp mod 64)" "continuation (128 + cp div 64 mod 64)"
    by (simp_all add: continuation_def)
  show ?thesis
    unfolding utf8_code_point.simps Let_def by (subst v)+ (use assms c in simp)
qed

lemma utf8_code_point_4:
  assumes "0x10000 \<le> cp" "cp \<le> 0x10FFFF"
  shows "utf8_code_point [0xF0 + cp div 262144, 0x80 + cp div 4096 mod 64, 0x80 + cp div 64 mod 64,
            0x80 + cp mod 64] = Some cp"
proof -
  have v: "(((240 + cp div 262144) mod 8 * 64 + (128 + cp div 4096 mod 64) mod 64) * 64
             + (128 + cp div 64 mod 64) mod 64) * 64 + (128 + cp mod 64) mod 64 = cp"
    by (simp only: mask_lead4 [OF lead_4 [OF assms(2)]] mask_cont mod_mod_trivial sextets_4)
  have c: "continuation (128 + cp mod 64)" "continuation (128 + cp div 64 mod 64)"
      "continuation (128 + cp div 4096 mod 64)"
    by (simp_all add: continuation_def)
  show ?thesis
    unfolding utf8_code_point.simps Let_def by (subst v)+ (use assms c in simp)
qed

lemma sextet_small: "(x::nat) mod 64 < 128"
proof -
  have "x mod 64 < 64" by simp
  then show ?thesis by linarith
qed

lemma Decode_multi:
  assumes u: "utf8 cp = b # bs" and ne: "bs \<noteq> []"
    and n: "leading_ones b = Suc (length bs)" and le: "length bs \<le> 3"
    and bytes: "\<forall>x \<in> set (b # bs). x < 256"
    and v: "utf8_code_point (b # bs) = Some cp"
  shows "Decode (percent_octets (utf8 cp) @ e) = map_option (\<lambda>r. utf16 cp @ r) (Decode e)"
proof -
  have split: "percent_octets (utf8 cp) @ e = percent_octet b @ (percent_octets bs @ e)"
    by (simp add: u percent_octets_def)
  have b: "b < 256" using bytes by simp
  have r: "read_octets (length bs) (percent_octets bs @ e) = Some (bs, e)"
    using bytes by (intro read_octets_percent) simp
  have l: "0 < length bs" using ne by simp
  show ?thesis
    unfolding split Decode_percent [OF b] Let_def n
    using l le by (simp add: r v)
qed

lemma Decode_encoded_1:
  assumes "cp < 0x80"
  shows "Decode (percent_octets (utf8 cp) @ e) = map_option (\<lambda>r. utf16 cp @ r) (Decode e)"
proof -
  have b: "cp < 256" using assms by simp
  have "percent_octets (utf8 cp) @ e = percent_octet cp @ e"
    using assms by (simp add: utf8_def percent_octets_def)
  then show ?thesis
    using assms by (simp add: Decode_percent [OF b] leading_ones_def utf16_def)
qed

lemma Decode_encoded_2:
  assumes "0x80 \<le> cp" "cp < 0x800"
  shows "Decode (percent_octets (utf8 cp) @ e) = map_option (\<lambda>r. utf16 cp @ r) (Decode e)"
proof (rule Decode_multi)
  show "utf8 cp = (0xC0 + cp div 64) # [0x80 + cp mod 64]"
    using assms by (simp add: utf8_def)
  show "leading_ones (0xC0 + cp div 64) = Suc (length [0x80 + cp mod 64])"
    using lead_2 [OF assms(2)] by (simp add: leading_ones_def)
  show "\<forall>x \<in> set ((0xC0 + cp div 64) # [0x80 + cp mod 64]). x < 256"
    using lead_2 [OF assms(2)] by simp
  show "utf8_code_point ((0xC0 + cp div 64) # [0x80 + cp mod 64]) = Some cp"
    using assms by (rule utf8_code_point_2)
qed simp_all

lemma Decode_encoded_3:
  assumes "0x800 \<le> cp" "cp < 0x10000" "cp < 0xD800 \<or> 0xDFFF < cp"
  shows "Decode (percent_octets (utf8 cp) @ e) = map_option (\<lambda>r. utf16 cp @ r) (Decode e)"
proof (rule Decode_multi)
  show "utf8 cp = (0xE0 + cp div 4096) # [0x80 + cp div 64 mod 64, 0x80 + cp mod 64]"
    using assms by (simp add: utf8_def)
  show "leading_ones (0xE0 + cp div 4096) = Suc (length [0x80 + cp div 64 mod 64, 0x80 + cp mod 64])"
    using lead_3 [OF assms(2)] by (simp add: leading_ones_def)
  show "\<forall>x \<in> set ((0xE0 + cp div 4096) # [0x80 + cp div 64 mod 64, 0x80 + cp mod 64]). x < 256"
    using lead_3 [OF assms(2)] by (simp add: sextet_small)
  show "utf8_code_point ((0xE0 + cp div 4096) # [0x80 + cp div 64 mod 64, 0x80 + cp mod 64]) = Some cp"
    using assms by (rule utf8_code_point_3)
qed simp_all

lemma Decode_encoded_4:
  assumes "0x10000 \<le> cp" "cp \<le> 0x10FFFF"
  shows "Decode (percent_octets (utf8 cp) @ e) = map_option (\<lambda>r. utf16 cp @ r) (Decode e)"
proof (rule Decode_multi)
  show "utf8 cp = (0xF0 + cp div 262144) #
      [0x80 + cp div 4096 mod 64, 0x80 + cp div 64 mod 64, 0x80 + cp mod 64]"
    using assms by (simp add: utf8_def)
  show "leading_ones (0xF0 + cp div 262144) =
      Suc (length [0x80 + cp div 4096 mod 64, 0x80 + cp div 64 mod 64, 0x80 + cp mod 64])"
    using lead_4 [OF assms(2)] by (simp add: leading_ones_def)
  show "\<forall>x \<in> set ((0xF0 + cp div 262144) #
      [0x80 + cp div 4096 mod 64, 0x80 + cp div 64 mod 64, 0x80 + cp mod 64]). x < 256"
    using lead_4 [OF assms(2)] by (simp add: sextet_small)
  show "utf8_code_point ((0xF0 + cp div 262144) #
      [0x80 + cp div 4096 mod 64, 0x80 + cp div 64 mod 64, 0x80 + cp mod 64]) = Some cp"
    using assms by (rule utf8_code_point_4)
qed simp_all

lemma Decode_encoded:
  assumes "cp \<le> 0x10FFFF" "cp < 0xD800 \<or> 0xDFFF < cp"
  shows "Decode (percent_octets (utf8 cp) @ e) = map_option (\<lambda>r. utf16 cp @ r) (Decode e)"
proof -
  consider "cp < 0x80" | "0x80 \<le> cp" "cp < 0x800" | "0x800 \<le> cp" "cp < 0x10000"
    | "0x10000 \<le> cp"
    by linarith
  then show ?thesis
  proof cases
    case 1 then show ?thesis by (rule Decode_encoded_1)
  next
    case 2 then show ?thesis by (rule Decode_encoded_2)
  next
    case 3 with assms(2) show ?thesis by (intro Decode_encoded_3)
  next
    case 4 with assms(1) show ?thesis by (intro Decode_encoded_4)
  qed
qed

subsection \<open>Surrogates\<close>

lemma unat_code_unit: "unat (c :: code_unit) < 65536"
  using unsigned_less [of c, where ?'a = nat] by simp

lemma lead_range: "is_lead c \<Longrightarrow> 0xD800 \<le> unat c \<and> unat c \<le> 0xDBFF"
  by (simp add: is_lead_def word_le_nat_alt)

lemma trail_range: "is_trail c \<Longrightarrow> 0xDC00 \<le> unat c \<and> unat c \<le> 0xDFFF"
  by (simp add: is_trail_def word_le_nat_alt)

lemma not_surrogate_range:
  "\<not> is_lead c \<Longrightarrow> \<not> is_trail c \<Longrightarrow> unat c < 0xD800 \<or> 0xDFFF < unat c"
  by (auto simp: is_lead_def is_trail_def word_le_nat_alt)

lemma utf16_unit: "utf16 (unat c) = [c]"
  using unat_code_unit [of c] by (simp add: utf16_def cu_unat)

lemma pair_code_point_range:
  assumes "is_lead c" "is_trail d"
  shows "0x10000 \<le> pair_code_point c d" "pair_code_point c d \<le> 0x10FFFF"
proof -
  have "unat c - 0xD800 \<le> 0x3FF" "unat d - 0xDC00 \<le> 0x3FF"
    using lead_range [OF assms(1)] trail_range [OF assms(2)] by linarith+
  then have "(unat c - 0xD800) * 0x400 \<le> 0x3FF * 0x400" "unat d - 0xDC00 \<le> 0x3FF"
    by (simp_all only: mult_le_mono1)
  then show "0x10000 \<le> pair_code_point c d" "pair_code_point c d \<le> 0x10FFFF"
    unfolding pair_code_point_def by linarith+
qed

lemma utf16_pair:
  assumes "is_lead c" "is_trail d"
  shows "utf16 (pair_code_point c d) = [c, d]"
proof -
  define h where "h = unat c - 0xD800"
  define l where "l = unat d - 0xDC00"
  have h: "h < 0x400" "h + 0xD800 = unat c"
    using lead_range [OF assms(1)] unfolding h_def by linarith+
  have l: "l < 0x400" "l + 0xDC00 = unat d"
    using trail_range [OF assms(2)] unfolding l_def by linarith+
  have p: "pair_code_point c d = h * 0x400 + l + 0x10000"
    by (simp add: pair_code_point_def h_def l_def)
  have "(h * 0x400 + l) div 0x400 = h" "(h * 0x400 + l) mod 0x400 = l"
    using l(1) by simp_all
  then show ?thesis
    unfolding utf16_def p using h(2) l(2) by (simp add: cu_unat)
qed

lemma unreserved_not_percent: "unreserved c \<Longrightarrow> c \<noteq> 37"
  by (auto simp: unreserved_def Let_def)

lemma unreserved_ascii: "unreserved c \<Longrightarrow> unat c < 128"
  by (auto simp: unreserved_def Let_def)

lemma unreserved_not_surrogate: "unreserved c \<Longrightarrow> \<not> is_lead c \<and> \<not> is_trail c"
proof -
  assume "unreserved c"
  then have "unat c < 128" by (rule unreserved_ascii)
  then show ?thesis
    using lead_range [of c] trail_range [of c] by linarith
qed

lemma lead_not_trail: "is_lead c \<Longrightarrow> \<not> is_trail c"
  using lead_range [of c] trail_range [of c] by linarith

lemma Encode_Some_iff: "Encode s \<noteq> None \<longleftrightarrow> well_formed s"
proof (induction s rule: well_formed.induct)
  case 1
  show ?case by simp
next
  case (2 c cs)
  show ?case
  proof (cases "is_lead c")
    case True
    note lead = this
    have nu: "\<not> unreserved c" using unreserved_not_surrogate [of c] lead by blast
    have nt: "\<not> is_trail c" using lead by (rule lead_not_trail)
    show ?thesis
    proof (cases cs)
      case Nil
      with lead nu nt show ?thesis by simp
    next
      case (Cons d ds)
      show ?thesis
      proof (cases "is_trail d")
        case True
        with 2(1) [OF lead Cons] lead nu nt Cons show ?thesis by simp
      next
        case False
        with lead nu nt Cons show ?thesis by simp
      qed
    qed
  next
    case False
    note nl = this
    show ?thesis
    proof (cases "unreserved c")
      case True
      with 2(2) [OF nl] nl unreserved_not_surrogate [OF True] show ?thesis by simp
    next
      case False
      with 2(2) [OF nl] nl show ?thesis by simp
    qed
  qed
qed

subsection \<open>Decoding what was encoded\<close>

lemma Decode_Encode: "Encode s = Some e \<Longrightarrow> Decode e = Some s"
proof (induction s arbitrary: e rule: well_formed.induct)
  case 1
  then show ?case by simp
next
  case (2 c cs)
  show ?case
  proof (cases "unreserved c")
    case True
    with 2 obtain e' where e': "Encode cs = Some e'" "e = c # e'"
      by auto
    moreover have "\<not> is_lead c"
      using True lead_range [of c] by (auto simp: unreserved_def Let_def)
    ultimately have "Decode e' = Some cs" using 2 by simp
    with e' unreserved_not_percent [OF True] show ?thesis by simp
  next
    case False
    note unres = this
    show ?thesis
    proof (cases "is_lead c")
      case True
      then have nt: "\<not> is_trail c"
        using lead_range [of c] trail_range [of c] by fastforce
      from 2(3) unres nt True obtain d ds e' where
        cs: "cs = d # ds" and d: "is_trail d" and e': "Encode ds = Some e'"
        and e: "e = percent_octets (utf8 (pair_code_point c d)) @ e'"
        by (cases cs) (auto split: if_splits)
      have "Decode e' = Some ds" using 2(1) [OF True cs e'] .
      moreover have "Decode e = map_option (\<lambda>r. utf16 (pair_code_point c d) @ r) (Decode e')"
        unfolding e using pair_code_point_range [OF True d]
        by (intro Decode_encoded) simp_all
      ultimately show ?thesis by (simp add: utf16_pair [OF True d] cs)
    next
      case False
      with 2(3) unres obtain e' where nt: "\<not> is_trail c" and e': "Encode cs = Some e'"
        and e: "e = percent_octets (utf8 (unat c)) @ e'"
        by (auto split: if_splits)
      have "Decode e' = Some cs" using 2(2) [OF False e'] .
      moreover have "Decode e = map_option (\<lambda>r. utf16 (unat c) @ r) (Decode e')"
        unfolding e using not_surrogate_range [OF False nt] unat_code_unit [of c]
        by (intro Decode_encoded) simp_all
      ultimately show ?thesis by (simp add: utf16_unit)
    qed
  qed
qed

section \<open>The location hash is read back as written\<close>

subsection \<open>ASCII strings through the browser's codecs\<close>


lemma ascii_not_surrogate: "ascii c \<Longrightarrow> \<not> is_lead c \<and> \<not> is_trail c"
  unfolding ascii_def using lead_range [of c] trail_range [of c] by linarith

lemma usv_ascii: "\<forall>c \<in> set s. ascii c \<Longrightarrow> usv s = map unat s"
  by (induction s) (simp_all add: ascii_not_surrogate)

lemma utf8_encode_ascii: "\<forall>c \<in> set s. ascii c \<Longrightarrow> utf8_encode s = map unat s"
proof -
  assume a: "\<forall>c \<in> set s. ascii c"
  then have "concat (map utf8 (map unat s)) = map unat s"
    by (induction s) (simp_all add: utf8_def ascii_def)
  with a show ?thesis by (simp add: utf8_encode_def usv_ascii)
qed

lemma utf8_decode_ascii:
  "\<forall>b \<in> set bs. b < 128 \<Longrightarrow> utf8_decode utf8_start bs = bs"
proof (induction bs)
  case Nil
  show ?case by (simp add: utf8_start_def)
next
  case (Cons b bs)
  then have "utf8_lead b = ([b], utf8_start)" by (simp add: utf8_lead_def)
  with Cons show ?case by (simp add: utf8_start_def)
qed

lemma percent_decode_plain: "0x25 \<notin> set bs \<Longrightarrow> percent_decode bs = bs"
  by (induction bs rule: percent_decode.induct) auto

lemma utf16_ascii: "concat (map (utf16 \<circ> unat) s) = s"
  by (induction s) (simp_all add: utf16_unit)

lemma form_decode_ascii:
  assumes "\<forall>c \<in> set s. ascii c" "37 \<notin> set s" "43 \<notin> set s"
  shows "utf8_decode_without_BOM (percent_decode (plus_to_space (map unat s))) = s"
proof -
  have p: "plus_to_space (map unat s) = map unat s"
    using assms(3) unfolding plus_to_space_def
  proof (induction s)
    case Nil
    show ?case by simp
  next
    case (Cons c s)
    from Cons.prems have "c \<noteq> 43" by auto
    then have "unat c \<noteq> 43" by (metis cu_unat cu_def of_nat_numeral)
    with Cons show ?case by simp
  qed
  have "0x25 \<notin> set (map unat s)"
  proof
    assume "0x25 \<in> set (map unat s)"
    then obtain c where "c \<in> set s" "unat c = 0x25" by auto
    then have "c = 37" by (metis cu_unat cu_def of_nat_numeral)
    with \<open>c \<in> set s\<close> assms(2) show False by simp
  qed
  then have d: "percent_decode (map unat s) = map unat s" by (rule percent_decode_plain)
  have "\<forall>b \<in> set (map unat s). b < 128" using assms(1) by (simp add: ascii_def)
  then have u: "utf8_decode utf8_start (map unat s) = map unat s" by (rule utf8_decode_ascii)
  show ?thesis by (simp add: utf8_decode_without_BOM_def p d u utf16_ascii)
qed


subsection \<open>Decimal digits\<close>

lemma digit_unit: "d < 10 \<Longrightarrow> unat (cu (48 + d)) = 48 + d"
  by (simp add: unat_cu)

lemma decimal_digits_digits: "\<forall>c \<in> set (decimal_digits n). decimal_digit c"
proof (induction n rule: decimal_digits.induct)
  case (1 n)
  show ?case
  proof (cases "n < 10")
    case True
    then show ?thesis by (subst decimal_digits.simps) (simp add: decimal_digit_def digit_unit)
  next
    case False
    have "n mod 10 < 10" by simp
    then have "decimal_digit (cu (48 + n mod 10))"
      by (simp add: decimal_digit_def digit_unit)
    with False 1 show ?thesis by (subst decimal_digits.simps) simp
  qed
qed

lemma decimal_digits_nonempty: "decimal_digits n \<noteq> []"
  by (subst decimal_digits.simps) simp

lemma decimal_value_snoc:
  "decimal_value (z @ [c]) = 10 * decimal_value z + (unat c - 48)"
  by (simp add: decimal_value_def)

lemma decimal_value_digits: "decimal_value (decimal_digits n) = n"
proof (induction n rule: decimal_digits.induct)
  case (1 n)
  show ?case
  proof (cases "n < 10")
    case True
    then show ?thesis by (subst decimal_digits.simps) (simp add: decimal_value_def digit_unit)
  next
    case False
    have "n mod 10 < 10" by simp
    then have "unat (cu (48 + n mod 10)) - 48 = n mod 10"
      by (simp add: digit_unit)
    with False 1 show ?thesis
      by (subst decimal_digits.simps) (simp add: decimal_value_snoc)
  qed
qed

lemma decimal_digit_not_space: "decimal_digit c \<Longrightarrow> \<not> StrWhiteSpaceChar c"
  by (auto simp: decimal_digit_def StrWhiteSpaceChar_def Let_def)

lemma decimal_digit_not_sign: "decimal_digit c \<Longrightarrow> c \<noteq> 43 \<and> c \<noteq> 45"
  by (auto simp: decimal_digit_def)

lemma parseInt_digits:
  assumes "z \<noteq> []" "\<forall>c \<in> set z. decimal_digit c"
  shows "parseInt z = Num (int (decimal_value z))"
proof -
  obtain c cs where z: "z = c # cs" using assms(1) by (cases z) auto
  with assms(2) have c: "decimal_digit c" by simp
  have d: "dropWhile StrWhiteSpaceChar z = z"
    using decimal_digit_not_space [OF c] by (simp add: z)
  have t: "takeWhile decimal_digit z = z"
    using assms(2) by (simp add: takeWhile_eq_all_conv)
  show ?thesis
    unfolding parseInt_def d Let_def
    using decimal_digit_not_sign [OF c] t assms(1) by (simp add: z)
qed

lemma parseInt_number_to_string: "parseInt (number_to_string (Num (int n))) = Num (int n)"
  using parseInt_digits [OF decimal_digits_nonempty decimal_digits_digits, of n]
  by (simp add: decimal_value_digits)

lemma unit_numeral: "unat (c :: code_unit) = numeral k \<Longrightarrow> c = numeral k"
  by (metis cu_unat cu_def of_nat_numeral)

lemma notin_map_unat:
  "(numeral k :: code_unit) \<notin> set s \<Longrightarrow> (numeral k :: nat) \<notin> set (map unat s)"
  using unit_numeral by auto

subsection \<open>Splitting\<close>

lemma split_on_no_sep: "sep \<notin> set s \<Longrightarrow> split_on sep s = [s]"
  by (induction s) auto

lemma split_on_append:
  "sep \<notin> set a \<Longrightarrow> split_on sep (a @ sep # b) = a # split_on sep b"
  by (induction a) auto

lemma dropWhile_none: "\<forall>x \<in> set xs. \<not> P x \<Longrightarrow> dropWhile P xs = xs"
  by (cases xs) auto

subsection \<open>What \<open>updateHash\<close> writes is kept by the URL parser\<close>

lemma fragment_plain_ascii: "fragment_plain c \<Longrightarrow> ascii c"
  by (simp add: fragment_plain_def ascii_def)

lemma fragment_plain_kept: "fragment_plain c \<Longrightarrow> fragment_code_point (unat c) = [c]"
  by (simp add: fragment_plain_def fragment_code_point_def fragment_percent_encode_set_def cu_unat)

lemma fragment_plain_not_space: "fragment_plain c \<Longrightarrow> \<not> c0_or_space c"
  by (simp add: fragment_plain_def c0_or_space_def word_le_nat_alt)

lemma fragment_plain_not_tab: "fragment_plain c \<Longrightarrow> \<not> tab_or_newline c"
  by (auto simp: fragment_plain_def tab_or_newline_def)

lemma fragment_plain_hash: "fragment_plain 35"
  by (simp add: fragment_plain_def)

lemma replaceState_plain:
  assumes "\<forall>c \<in> set h. fragment_plain c"
  shows "fragment (replaceState (35 # h) st) = h"
proof -
  have all: "\<forall>c \<in> set (35 # h). fragment_plain c"
    using assms fragment_plain_hash by simp
  have "\<forall>c \<in> set (rev (35 # h)). \<not> c0_or_space c"
    using all fragment_plain_not_space by auto
  then have s2: "dropWhile c0_or_space (rev (35 # h)) = rev (35 # h)"
    by (rule dropWhile_none)
  have s1: "dropWhile c0_or_space (35 # h) = 35 # h"
    using fragment_plain_not_space [OF fragment_plain_hash] by simp
  have s3: "filter (\<lambda>c. \<not> tab_or_newline c) (35 # h) = 35 # h"
    using all fragment_plain_not_tab by (intro filter_True) auto
  have s4: "usv h = map unat h"
    using assms fragment_plain_ascii by (intro usv_ascii) auto
  have s5: "concat (map (fragment_code_point \<circ> unat) h) = h"
    using assms by (induction h) (simp_all add: fragment_plain_kept)
  have "rev (dropWhile c0_or_space (rev (dropWhile c0_or_space (35 # h)))) = 35 # h"
    unfolding s1 s2 by simp
  then show ?thesis
    unfolding replaceState_def Let_def by (simp only: s3) (simp add: s4 s5)
qed

subsection \<open>What \<open>Encode\<close> writes\<close>

lemma hex_digit_unreserved: "d < 16 \<Longrightarrow> unreserved (hex_digit d)"
  by (auto simp: unreserved_def hex_digit_def unat_cu Let_def)

lemma percent_octets_chars:
  "\<forall>b \<in> set bs. b < 256 \<Longrightarrow> \<forall>c \<in> set (percent_octets bs). unreserved c \<or> c = 37"
proof (induction bs)
  case Nil
  show ?case by (simp add: percent_octets_def)
next
  case (Cons b bs)
  then have "b < 16 * 16" by simp
  then have "b div 16 < 16" "b mod 16 < 16"
    by (simp_all add: less_mult_imp_div_less)
  then have "unreserved (hex_digit (b div 16))" "unreserved (hex_digit (b mod 16))"
    by (simp_all only: hex_digit_unreserved)
  with Cons show ?case by (simp add: percent_octets_def percent_octet_def)
qed

lemma utf8_bytes: "cp \<le> 0x10FFFF \<Longrightarrow> \<forall>b \<in> set (utf8 cp). b < 256"
proof -
  assume cp: "cp \<le> 0x10FFFF"
  have "cp < 0x800 \<Longrightarrow> cp div 64 < 32" by (rule lead_2)
  moreover have "cp < 0x10000 \<Longrightarrow> cp div 4096 < 16" by (rule lead_3)
  moreover have "cp div 262144 < 8" using cp by (rule lead_4)
  ultimately show ?thesis by (auto simp: utf8_def sextet_small)
qed

lemma Encode_chars: "Encode s = Some e \<Longrightarrow> \<forall>c \<in> set e. unreserved c \<or> c = 37"
proof (induction s arbitrary: e rule: well_formed.induct)
  case 1
  then show ?case by simp
next
  case (2 c cs)
  show ?case
  proof (cases "unreserved c")
    case True
    with 2(3) obtain e' where e': "Encode cs = Some e'" "e = c # e'" by auto
    have "\<not> is_lead c" using unreserved_not_surrogate [OF True] by simp
    from 2(2) [OF this e'(1)] True e'(2) show ?thesis by simp
  next
    case False
    note unres = this
    show ?thesis
    proof (cases "is_lead c")
      case True
      have nt: "\<not> is_trail c" using True by (rule lead_not_trail)
      from 2(3) unres nt True obtain d ds e' where
        cs: "cs = d # ds" and d: "is_trail d" and e': "Encode ds = Some e'"
        and e: "e = percent_octets (utf8 (pair_code_point c d)) @ e'"
        by (cases cs) (auto split: if_splits)
      have "\<forall>b \<in> set (utf8 (pair_code_point c d)). b < 256"
        using pair_code_point_range(2) [OF True d] by (rule utf8_bytes)
      then have "\<forall>x \<in> set (percent_octets (utf8 (pair_code_point c d))). unreserved x \<or> x = 37"
        by (rule percent_octets_chars)
      with 2(1) [OF True cs e'] show ?thesis unfolding e by auto
    next
      case False
      with 2(3) unres obtain e' where nt: "\<not> is_trail c" and e': "Encode cs = Some e'"
        and e: "e = percent_octets (utf8 (unat c)) @ e'"
        by (auto split: if_splits)
      have "unat c \<le> 0x10FFFF" using unat_code_unit [of c] by linarith
      then have "\<forall>b \<in> set (utf8 (unat c)). b < 256" by (rule utf8_bytes)
      then have "\<forall>x \<in> set (percent_octets (utf8 (unat c))). unreserved x \<or> x = 37"
        by (rule percent_octets_chars)
      with 2(2) [OF False e'] show ?thesis unfolding e by auto
    qed
  qed
qed

subsection \<open>One parameter in the query\<close>

lemma takeWhile_until:
  "x \<notin> set a \<Longrightarrow> takeWhile (\<lambda>b. b \<noteq> x) (a @ x # r) = a"
  by (induction a) auto

lemma dropWhile_until:
  "x \<notin> set a \<Longrightarrow> dropWhile (\<lambda>b. b \<noteq> x) (a @ x # r) = x # r"
  by (induction a) auto

lemma URLSearchParams_single:
  assumes n: "\<forall>c \<in> set key. ascii c" "key \<noteq> []" "63 \<notin> set key"
      "37 \<notin> set key" "38 \<notin> set key" "43 \<notin> set key" "61 \<notin> set key"
    and v: "\<forall>c \<in> set val. ascii c" "37 \<notin> set val" "38 \<notin> set val" "43 \<notin> set val"
  shows "URLSearchParams (key @ 61 # val) = [(key, val)]"
proof -
  let ?q = "key @ 61 # val"
  obtain c cs where key: "key = c # cs" using n(2) by (cases key) auto
  with n(3) have c: "c \<noteq> 63" by auto
  have init: "(case ?q of c # cs \<Rightarrow> if c = 63 then cs else ?q | [] \<Rightarrow> ?q) = ?q"
    using c by (simp add: key)
  have a61: "ascii 61" by (simp add: ascii_def)
  have asc: "\<forall>c \<in> set ?q. ascii c" using n(1) v(1) a61 by auto
  have enc: "utf8_encode ?q = map unat key @ 61 # map unat val"
    using utf8_encode_ascii [OF asc] by simp
  have amp: "0x26 \<notin> set (map unat key @ 61 # map unat val)"
    using notin_map_unat [OF n(5)] notin_map_unat [OF v(3)] by simp
  have pieces: "filter (\<lambda>bytes. bytes \<noteq> []) (split_on 0x26 (map unat key @ 61 # map unat val))
      = [map unat key @ 61 # map unat val]"
    by (simp add: split_on_no_sep [OF amp])
  have eqs: "0x3D \<notin> set (map unat key)"
    using notin_map_unat [OF n(7)] by simp
  have nm: "takeWhile (\<lambda>b. b \<noteq> 0x3D) (map unat key @ 0x3D # map unat val) = map unat key"
    using eqs by (rule takeWhile_until)
  have vl: "drop 1 (dropWhile (\<lambda>b. b \<noteq> 0x3D) (map unat key @ 0x3D # map unat val)) = map unat val"
    using dropWhile_until [OF eqs, of "map unat val"] by simp
  have pair: "urlencoded_pair (map unat key @ 61 # map unat val) = (key, val)"
    unfolding urlencoded_pair_def Let_def
    using nm vl form_decode_ascii [OF n(1) n(4) n(6)] form_decode_ascii [OF v(1) v(2) v(4)]
    by simp
  show ?thesis
    unfolding URLSearchParams_def init enc urlencoded_parse_def pieces by (simp add: pair)
qed

lemma decimal_digit_chars:
  assumes "decimal_digit c"
  shows "ascii c" "fragment_plain c" "c \<noteq> 37" "c \<noteq> 38" "c \<noteq> 43" "c \<noteq> 63"
  using assms by (auto simp: decimal_digit_def ascii_def fragment_plain_def)

lemma param_names:
  assumes "key = js ''page'' \<or> key = js ''scroll''"
  shows "\<forall>c \<in> set key. ascii c" "key \<noteq> []" "63 \<notin> set key"
      "37 \<notin> set key" "38 \<notin> set key" "43 \<notin> set key" "61 \<notin> set key"
      "\<forall>c \<in> set key. fragment_plain c"
  using assms by (auto simp: js_def cu_def ascii_def fragment_plain_def)

lemma URLSearchParams_position:
  assumes key: "key = js ''page'' \<or> key = js ''scroll''"
    and v: "\<forall>c \<in> set val. ascii c" "37 \<notin> set val" "38 \<notin> set val" "43 \<notin> set val"
  shows "URLSearchParams (key @ 61 # val) = [(key, val)]"
  using param_names(1-7) [OF key] v by (rule URLSearchParams_single)

lemma scrollParam_read:
  assumes key: "key = js ''page'' \<or> key = js ''scroll''" and z: "z \<noteq> []"
  shows "js_or (params_get [(key, z)] (js ''scroll'')) (params_get [(key, z)] (js ''page'')) = Some z"
proof -
  have "js ''page'' \<noteq> js ''scroll''" by (simp add: js_def)
  with key z show ?thesis
    by (auto simp: js_or_def params_get_def)
qed

subsection \<open>Reading back what \<open>updateHash\<close> wrote\<close>

lemma unreserved_plain: "unreserved c \<Longrightarrow> fragment_plain c"
  by (auto simp: unreserved_def fragment_plain_def Let_def)

lemma encoded_chars:
  assumes "Encode s = Some e"
  shows "\<forall>c \<in> set e. fragment_plain c" "63 \<notin> set e"
proof -
  have c: "\<forall>c \<in> set e. unreserved c \<or> c = 37" using assms by (rule Encode_chars)
  have "fragment_plain 37" by (simp add: fragment_plain_def)
  with c show "\<forall>c \<in> set e. fragment_plain c" using unreserved_plain by auto
  have "\<not> unreserved 63" by (simp add: unreserved_def)
  with c show "63 \<notin> set e" by auto
qed

lemma parseHash_path_only:
  assumes f: "fragment st = e" and q: "63 \<notin> set e" and d: "Decode e = Some p"
  shows "parseHash st = Some (p, None)"
proof (cases "e = []")
  case True
  with d have "p = []" by simp
  with True f show ?thesis by (simp add: parseHash_def location_hash_def)
next
  case False
  then have h: "drop 1 (location_hash st) = e" by (simp add: location_hash_def f)
  show ?thesis
    unfolding parseHash_def h Let_def split_on_no_sep [OF q]
    using False d by (simp add: decodeURIComponent_def)
qed

lemma parseHash_path_position:
  assumes f: "fragment st = e @ 63 # key @ 61 # val" and q: "63 \<notin> set e"
    and d: "Decode e = Some p"
    and key: "key = js ''page'' \<or> key = js ''scroll''"
    and v: "val \<noteq> []" "\<forall>c \<in> set val. ascii c" "37 \<notin> set val" "38 \<notin> set val"
      "43 \<notin> set val" "63 \<notin> set val"
  shows "parseHash st = Some (p, Some (parseInt val))"
proof -
  have h: "drop 1 (location_hash st) = e @ 63 # key @ 61 # val"
    by (simp add: location_hash_def f)
  have "63 \<notin> set (key @ 61 # val)" using param_names(3) [OF key] v(6) by simp
  then have parts: "split_on 63 (e @ 63 # key @ 61 # val) = [e, key @ 61 # val]"
    by (simp add: split_on_append [OF q] split_on_no_sep)
  show ?thesis
    unfolding parseHash_def h Let_def parts
    using d v(1)
    by (simp add: decodeURIComponent_def URLSearchParams_position [OF key v(2-5)]
        scrollParam_read [OF key v(1)])
qed

lemma decimal_digits_chars:
  assumes "\<forall>c \<in> set z. decimal_digit c"
  shows "\<forall>c \<in> set z. ascii c" "37 \<notin> set z" "38 \<notin> set z" "43 \<notin> set z" "63 \<notin> set z"
  using assms decimal_digit_chars by blast+

lemma updateHash_fragment:
  assumes "Encode p = Some e"
  shows "updateHash p None st = Some (replaceState (35 # e) st)"
    "updateHash p (Some n) st =
       Some (replaceState (35 # e @ 63 #
         (if map_option type (selectedEntry st) = Some (js ''pdf'') then js ''page'' else js ''scroll'')
           @ 61 # number_to_string n) st)"
proof -
  have "js ''?'' = [63]" "js ''='' = [61]" by (simp_all add: js_def cu_def)
  then show "updateHash p None st = Some (replaceState (35 # e) st)"
    "updateHash p (Some n) st =
       Some (replaceState (35 # e @ 63 #
         (if map_option type (selectedEntry st) = Some (js ''pdf'') then js ''page'' else js ''scroll'')
           @ 61 # number_to_string n) st)"
    using assms by (simp_all add: updateHash_def encodeURIComponent_def Let_def)
qed

text \<open>
  C9, as the code has it. For a path with no unpaired surrogate and a position that is
  \<open>null\<close> or a non-negative integer below \<open>2^53\<close>, \<open>updateHash\<close> writes a
  hash from which \<open>parseHash\<close> reads the same path and the same position, whether the
  selected entry is a PDF (parameter \<open>page\<close>) or not (parameter \<open>scroll\<close>).
\<close>

theorem updateHash_parseHash_round_trip:
  assumes wf: "well_formed p"
    and pos: "scroll = None \<or> (\<exists>i. scroll = Some (Num i) \<and> 0 \<le> i \<and> i < 2 ^ 53)"
  shows "\<exists>st'. updateHash p scroll st = Some st' \<and> parseHash st' = Some (p, scroll)"
proof -
  obtain e where e: "Encode p = Some e"
    using wf Encode_Some_iff [of p] by auto
  have d: "Decode e = Some p" using e by (rule Decode_Encode)
  note chars = encoded_chars [OF e]
  from pos show ?thesis
  proof
    assume none: "scroll = None"
    have "fragment (replaceState (35 # e) st) = e"
      using chars(1) by (rule replaceState_plain)
    then have "parseHash (replaceState (35 # e) st) = Some (p, None)"
      using chars(2) d by (rule parseHash_path_only)
    then show ?thesis by (simp add: none updateHash_fragment(1) [OF e])
  next
    assume "\<exists>i. scroll = Some (Num i) \<and> 0 \<le> i \<and> i < 2 ^ 53"
    then obtain i where some: "scroll = Some (Num i)" and i: "0 \<le> i" by auto
    define key where
      "key = (if map_option type (selectedEntry st) = Some (js ''pdf'') then js ''page'' else js ''scroll'')"
    define z where "z = decimal_digits (nat i)"
    have key: "key = js ''page'' \<or> key = js ''scroll''" by (simp add: key_def)
    have z: "z \<noteq> []" "\<forall>c \<in> set z. decimal_digit c"
      unfolding z_def by (rule decimal_digits_nonempty, rule decimal_digits_digits)
    have n: "number_to_string (Num i) = z" using i by (simp add: z_def)
    have v: "parseInt z = Num i"
      using parseInt_digits [OF z] i by (simp add: z_def decimal_value_digits)
    let ?h = "e @ 63 # key @ 61 # z"
    have "fragment_plain 63" "fragment_plain 61" by (simp_all add: fragment_plain_def)
    then have "\<forall>c \<in> set ?h. fragment_plain c"
      using chars(1) param_names(8) [OF key] z(2) decimal_digit_chars(2) by auto
    then have "fragment (replaceState (35 # ?h) st) = ?h"
      by (rule replaceState_plain)
    then have "parseHash (replaceState (35 # ?h) st) = Some (p, Some (parseInt z))"
      using chars(2) d key z(1) decimal_digits_chars [OF z(2)] by (rule parseHash_path_position)
    moreover have "updateHash p scroll st = Some (replaceState (35 # ?h) st)"
      by (simp only: some updateHash_fragment(2) [OF e] n key_def)
    ultimately show ?thesis by (simp add: some v)
  qed
qed

theorem updateHash_parseHash_round_trip_witness:
  "well_formed (js ''d/A/x y.pdf'') \<and>
   (\<exists>st'. updateHash (js ''d/A/x y.pdf'') (Some (Num 12)) shown_page = Some st' \<and>
          parseHash st' = Some (js ''d/A/x y.pdf'', Some (Num 12)))"
proof -
  have w: "well_formed (js ''d/A/x y.pdf'')"
    by (simp add: js_def cu_def is_lead_def is_trail_def)
  have pos: "Some (Num 12) = None \<or> (\<exists>i. Some (Num 12) = Some (Num i) \<and> 0 \<le> i \<and> i < 2 ^ 53)"
    by simp
  from updateHash_parseHash_round_trip [OF w pos] w show ?thesis by blast
qed

text \<open>
  C9 as stated fails for a path with an unpaired surrogate: \<open>encodeURIComponent\<close>
  throws \<open>URIError\<close>, \<open>updateHash\<close> writes nothing, and there is no hash to read
  back.
\<close>

theorem updateHash_unpaired_surrogate:
  "updateHash [0xD800] None shown_page = None"
  by (simp add: updateHash_def encodeURIComponent_def unreserved_def is_trail_def is_lead_def)


section \<open>The position read by \<open>parseHash\<close>\<close>

lemma Decode_plain: "37 \<notin> set s \<Longrightarrow> Decode s = Some s"
  by (induction s) auto


text \<open>
  C8. For the hash \<open>#d/A/x.pdf?page=abc\<close> the parameter is a non-empty string with no
  leading digit: \<open>parseInt\<close> gives \<open>NaN\<close>, and \<open>parseHash\<close> returns it as the
  position, neither \<open>null\<close> nor an integer.
\<close>

theorem parseHash_NaN:
  "parseHash (shown_page\<lparr>fragment := js ''d/A/x.pdf?page=abc''\<rparr>) = Some (js ''d/A/x.pdf'', Some NaN)"
proof -
  let ?st = "shown_page\<lparr>fragment := js ''d/A/x.pdf?page=abc''\<rparr>"
  have f: "fragment ?st = js ''d/A/x.pdf'' @ 63 # js ''page'' @ 61 # js ''abc''"
    by (simp add: js_def cu_def)
  have q: "63 \<notin> set (js ''d/A/x.pdf'')" by (simp add: js_def cu_def)
  have "37 \<notin> set (js ''d/A/x.pdf'')" by (simp add: js_def cu_def)
  then have d: "Decode (js ''d/A/x.pdf'') = Some (js ''d/A/x.pdf'')" by (rule Decode_plain)
  have v: "js ''abc'' \<noteq> []" "\<forall>c \<in> set (js ''abc''). ascii c" "37 \<notin> set (js ''abc'')"
      "38 \<notin> set (js ''abc'')" "43 \<notin> set (js ''abc'')" "63 \<notin> set (js ''abc'')"
    by (simp_all add: js_def cu_def ascii_def)
  have n: "parseInt (js ''abc'') = NaN"
    by (simp add: parseInt_def js_def cu_def StrWhiteSpaceChar_def decimal_digit_def)
  have "parseHash ?st = Some (js ''d/A/x.pdf'', Some (parseInt (js ''abc'')))"
    using f q d _ v by (rule parseHash_path_position) simp
  then show ?thesis by (simp only: n)
qed

section \<open>The inherited \<open>drug\<close>\<close>

lemma walk_name: "name (walk kind lazy inline inh parent ov node) = entry_name node"
  by (cases node) (simp_all add: file_node_def Let_def)

lemma walk_drug:
  "drug (walk kind lazy inline inh parent ov node) =
     (case own_drug node of Some d \<Rightarrow> Some d | None \<Rightarrow> inh)"
  by (cases node) (simp_all add: file_node_def merge_drug_def Let_def)

lemma walk_children:
  "children (walk kind lazy inline inh parent ov node) = Some cs \<Longrightarrow>
   \<exists>nm meta listing. node = Dir nm meta listing \<and>
     cs = map (walk kind lazy False (merge_drug (fst (load_metadata meta)) inh)
                 (Some (child_path parent nm)) (snd (load_metadata meta))) listing"
  by (cases node) (auto simp: file_node_def Let_def split: if_splits)

lemma entry_at_step:
  "entry_at e (i # rest) =
     (case children e of
        None \<Rightarrow> None
      | Some cs \<Rightarrow> if i < length cs then entry_at (cs ! i) rest else None)"
  by (cases e) simp

lemma lineage_from_append: "lineage_from upper node pos = lineage_from [] node pos @ upper"
proof (induction pos arbitrary: upper node)
  case Nil
  show ?case by simp
next
  case (Cons i rest)
  show ?case
  proof (cases node)
    case (File nm)
    then show ?thesis by simp
  next
    case (Dir nm meta listing)
    show ?thesis
      using Cons [of "Dir nm meta listing # upper" "listing ! i"] Cons [of "[Dir nm meta listing]" "listing ! i"]
      by (simp add: Dir)
  qed
qed

lemma nearest_drug_append:
  "nearest_drug (xs @ ys) = (case nearest_drug xs of Some d \<Rightarrow> Some d | None \<Rightarrow> nearest_drug ys)"
  by (induction xs) (simp_all split: option.splits)

lemma nearest_drug_None: "\<forall>a \<in> set chain. own_drug a = None \<Longrightarrow> nearest_drug chain = None"
  by (induction chain) simp_all

lemma lineage_from_head:
  "snapshot_at node pos = Some n \<Longrightarrow> \<exists>upper'. lineage_from upper node pos = n # upper'"
proof (induction pos arbitrary: node upper)
  case Nil
  then show ?case by simp
next
  case (Cons i rest)
  then show ?case by (cases node) (auto split: if_splits)
qed

lemma walk_inherits:
  assumes "entry_at (walk kind lazy inline inh parent ov node) pos = Some e"
  shows "\<exists>n. snapshot_at node pos = Some n \<and> name e = entry_name n \<and>
           drug e = (case nearest_drug (lineage_from [] node pos) of Some d \<Rightarrow> Some d | None \<Rightarrow> inh)"
  using assms
proof (induction pos arbitrary: node inline inh parent ov)
  case Nil
  then have "e = walk kind lazy inline inh parent ov node" by simp
  then show ?case by (simp add: walk_name walk_drug split: option.splits)
next
  case (Cons i rest)
  from Cons.prems obtain cs where cs: "children (walk kind lazy inline inh parent ov node) = Some cs"
    and i: "i < length cs" and at: "entry_at (cs ! i) rest = Some e"
    by (auto simp: entry_at_step split: option.splits if_splits)
  from walk_children [OF cs] obtain nm meta listing where node: "node = Dir nm meta listing"
    and cs_eq: "cs = map (walk kind lazy False (merge_drug (fst (load_metadata meta)) inh)
                 (Some (child_path parent nm)) (snd (load_metadata meta))) listing"
    by blast
  let ?merged = "merge_drug (fst (load_metadata meta)) inh"
  from i cs_eq have il: "i < length listing" by simp
  with at cs_eq have "entry_at (walk kind lazy False ?merged (Some (child_path parent nm))
      (snd (load_metadata meta)) (listing ! i)) rest = Some e" by simp
  from Cons.IH [OF this] obtain n where n: "snapshot_at (listing ! i) rest = Some n"
    "name e = entry_name n"
    "drug e = (case nearest_drug (lineage_from [] (listing ! i) rest) of
                 Some d \<Rightarrow> Some d | None \<Rightarrow> ?merged)"
    by blast
  have lin: "lineage_from [] node (i # rest) = lineage_from [] (listing ! i) rest @ [node]"
    using il lineage_from_append [of "[node]" "listing ! i" rest] by (simp add: node)
  have "drug e = (case nearest_drug (lineage_from [] node (i # rest)) of
                    Some d \<Rightarrow> Some d | None \<Rightarrow> inh)"
    unfolding lin nearest_drug_append n(3)
    by (simp add: node merge_drug_def split: option.splits)
  with n(1,2) il show ?case by (simp add: node)
qed

text \<open>
  C1. Every node of the emitted tree comes from a node of the snapshot at the same
  position, and its \<open>drug\<close> is the first one defined on the chain from that node up to
  the root: its own overlay's when that defines one, else the nearest ancestor's, and the
  field is absent when no node of the chain defines one.
\<close>

theorem drug_is_nearest_defined:
  assumes "entry_at (assemble kind lazy root) pos = Some e"
  shows "\<exists>n. snapshot_at root pos = Some n \<and> name e = entry_name n \<and>
           drug e = nearest_drug (lineage root pos) \<and>
           (\<forall>d. own_drug n = Some d \<longrightarrow> drug e = Some d) \<and>
           (own_drug n = None \<longrightarrow> drug e = nearest_drug (tl (lineage root pos))) \<and>
           ((\<forall>a \<in> set (lineage root pos). own_drug a = None) \<longrightarrow> drug e = None)"
proof -
  from walk_inherits [OF assms [unfolded assemble_def]]
  obtain n where n: "snapshot_at root pos = Some n" "name e = entry_name n"
    and d0: "drug e = (case nearest_drug (lineage_from [] root pos) of
                         Some d \<Rightarrow> Some d | None \<Rightarrow> None)"
    by blast
  have d: "drug e = nearest_drug (lineage root pos)"
    unfolding d0 lineage_def by (cases "nearest_drug (lineage_from [] root pos)") simp_all
  from lineage_from_head [OF n(1), of "[]"] obtain upper where
    l: "lineage root pos = n # upper" unfolding lineage_def by blast
  have own: "\<forall>x. own_drug n = Some x \<longrightarrow> drug e = Some x"
    by (simp add: d l)
  have anc: "own_drug n = None \<longrightarrow> drug e = nearest_drug (tl (lineage root pos))"
    by (simp add: d l)
  have none: "(\<forall>a \<in> set (lineage root pos). own_drug a = None) \<longrightarrow> drug e = None"
    by (simp add: d nearest_drug_None)
  show ?thesis
    by (rule exI [of _ n]) (intro conjI n d own anc none)
qed

lemma every_node_emitted:
  "snapshot_at node pos = Some n \<Longrightarrow>
   \<exists>e. entry_at (walk kind never inline inh parent ov node) pos = Some e"
proof (induction pos arbitrary: node inline inh parent ov)
  case Nil
  then show ?case by simp
next
  case (Cons i rest)
  then obtain nm meta listing where node: "node = Dir nm meta listing" and i: "i < length listing"
    and at: "snapshot_at (listing ! i) rest = Some n"
    by (cases node) (auto split: if_splits)
  from Cons.IH [OF at] i show ?case
    by (simp add: node never_def Let_def)
qed

theorem drug_is_nearest_defined_witness:
  "entry_at (assemble as_pdf never archive) [0, 0] = Some doc_entry \<and>
   drug doc_entry = nearest_drug (lineage archive [0, 0]) \<and>
   drug doc_entry = Some (js ''X'')"
proof -
  have at: "entry_at (assemble as_pdf never archive) [0, 0] = Some doc_entry"
    by (simp add: assemble_def archive_def never_def doc_entry_def
      load_metadata_def no_overlay_def child_path_def merge_drug_def file_node_def as_pdf_def
      drug_X_def js_def cu_def slash_def Let_def)
  from drug_is_nearest_defined [OF at]
  have "drug doc_entry = nearest_drug (lineage archive [0, 0])" by blast
  moreover have "drug doc_entry = Some (js ''X'')" by (simp add: doc_entry_def)
  ultimately show ?thesis using at by blast
qed

section \<open>Titles\<close>






lemma folder_without_metadata:
  "overlay_title ov (Dir nm Absent listing) [] = None"
  "overlay_title ov (Dir nm Unparsable listing) [] = None"
  "raw (js ''_folder'') = None \<Longrightarrow> overlay_title ov (Dir nm (Parsed raw) listing) [] = None"
  by (simp_all add: load_metadata_def no_overlay_def)

lemma file_without_overlay:
  "ov nm = None \<Longrightarrow> overlay_title ov (File nm) [] = None"
  "ov nm = Some f \<Longrightarrow> file_title f = None \<Longrightarrow> overlay_title ov (File nm) [] = None"
  by simp_all



section \<open>Expanding the lazy fragments\<close>

subsection \<open>Expansion with every fragment at hand\<close>

lemma walk_never_inline:
  "walk kind never inline inh parent ov node = walk kind never b inh parent ov node"
  by (cases node) (simp_all add: never_def)

lemma foldr_max_ge: "x \<in> set xs \<Longrightarrow> x \<le> foldr max xs (0::nat)"
  by (induction xs) auto

lemma depth_entry: "entry \<in> set listing \<Longrightarrow> depth entry \<le> foldr max (map depth listing) 0"
  by (rule foldr_max_ge) simp

lemma expand_walk:
  assumes "\<And>k v. (k, v) \<in> set (fragments kind lazy inline inh parent ov node) \<Longrightarrow> S k = Some v"
    and "depth node \<le> fuel"
  shows "expand fuel S (walk kind lazy inline inh parent ov node) =
         walk kind never True inh parent ov node"
  using assms
proof (induction node arbitrary: inline inh parent ov fuel)
  case (File nm)
  show ?case by (simp add: file_node_def)
next
  case (Dir nm meta listing)
  let ?node = "Dir nm meta listing"
  let ?pth = "child_path parent nm"
  let ?merged = "merge_drug (fst (load_metadata meta)) inh"
  let ?ov = "snd (load_metadata meta)"
  let ?ttl = "case folder_title (fst (load_metadata meta)) of Some t \<Rightarrow> t | None \<Rightarrow> nm"
  let ?full = "\<lambda>cs. TocEntry nm (js ''folder'') ?pth (Some cs) None None (Some ?ttl)
                    (folder_summary (fst (load_metadata meta))) None ?merged"
  have store: "(k, v) \<in> set (fragments kind lazy False ?merged (Some ?pth) ?ov entry) \<Longrightarrow>
      S k = Some v" if "entry \<in> set listing" for entry k v
    using that by (intro Dir.prems(1)) (auto simp: Let_def)
  have kids: "map (expand f S) (map (walk kind lazy False ?merged (Some ?pth) ?ov) listing) =
      map (walk kind never False ?merged (Some ?pth) ?ov) listing"
    if f: "\<And>entry. entry \<in> set listing \<Longrightarrow> depth entry \<le> f" for f
  proof -
    have "expand f S (walk kind lazy False ?merged (Some ?pth) ?ov entry) =
        walk kind never False ?merged (Some ?pth) ?ov entry" if "entry \<in> set listing" for entry
    proof -
      have "expand f S (walk kind lazy False ?merged (Some ?pth) ?ov entry) =
          walk kind never True ?merged (Some ?pth) ?ov entry"
      proof (rule Dir.IH)
        show "entry \<in> set listing" by (rule that)
        show "depth entry \<le> f" by (rule f [OF that])
        show "S k = Some v"
          if "(k, v) \<in> set (fragments kind lazy False ?merged (Some ?pth) ?ov entry)" for k v
          using that by (rule store [OF \<open>entry \<in> set listing\<close>])
      qed
      then show ?thesis by (simp only: walk_never_inline [of kind False _ _ _ _ True])
    qed
    then show ?thesis by simp
  qed
  have eager: "walk kind never True inh parent ov ?node =
      ?full (map (walk kind never False ?merged (Some ?pth) ?ov) listing)"
    by (simp add: never_def Let_def)
  have inline: "walk kind lazy True inh parent ov ?node =
      ?full (map (walk kind lazy False ?merged (Some ?pth) ?ov) listing)"
    by (simp add: Let_def)
  show ?case
  proof (cases "\<not> inline \<and> lazy ?pth ?node")
    case True
    then have stub: "walk kind lazy inline inh parent ov ?node =
        TocEntry nm (js ''folder'') ?pth None (Some (ref_of ?pth)) None (Some ?ttl)
          (folder_summary (fst (load_metadata meta))) None ?merged"
      by (simp add: Let_def)
    from Dir.prems(2) obtain k where fuel: "fuel = Suc k"
      and k: "foldr max (map depth listing) 0 \<le> k"
      by (cases fuel) auto
    have "(ref_of ?pth, walk kind lazy True inh parent ov ?node) \<in>
        set (fragments kind lazy inline inh parent ov ?node)"
      using True by (simp add: Let_def)
    then have fetched: "S (ref_of ?pth) = Some (walk kind lazy True inh parent ov ?node)"
      by (rule Dir.prems(1))
    have d: "depth entry \<le> k" if "entry \<in> set listing" for entry
      using depth_entry [OF that] k by simp
    have "expand k S (walk kind lazy True inh parent ov ?node) =
        ?full (map (expand k S) (map (walk kind lazy False ?merged (Some ?pth) ?ov) listing))"
      unfolding inline by simp
    also have "\<dots> = ?full (map (walk kind never False ?merged (Some ?pth) ?ov) listing)"
      by (simp only: kids [OF d])
    also have "\<dots> = walk kind never True inh parent ov ?node"
      by (simp only: eager)
    finally show ?thesis unfolding stub fuel by (simp add: fetched)
  next
    case False
    then have loaded: "walk kind lazy inline inh parent ov ?node =
        ?full (map (walk kind lazy False ?merged (Some ?pth) ?ov) listing)"
      by (auto simp: Let_def)
    have d: "depth entry \<le> fuel" if "entry \<in> set listing" for entry
      using depth_entry [OF that] Dir.prems(2) by simp
    have "expand fuel S (walk kind lazy inline inh parent ov ?node) =
        ?full (map (expand fuel S) (map (walk kind lazy False ?merged (Some ?pth) ?ov) listing))"
      unfolding loaded by simp
    also have "\<dots> = ?full (map (walk kind never False ?merged (Some ?pth) ?ov) listing)"
      by (simp only: kids [OF d])
    also have "\<dots> = walk kind never True inh parent ov ?node"
      by (simp only: eager)
    finally show ?thesis .
  qed
qed

subsection \<open>Every reference names one fragment\<close>

lemma ref_of_inj: "ref_of a = ref_of b \<Longrightarrow> a = b"
  by (simp add: ref_of_def)

lemma paths_under:
  "q \<in> set (paths parent node) \<Longrightarrow>
   \<exists>r. q = child_path parent (entry_name node) @ r \<and> (r = [] \<or> (\<exists>r'. r = slash # r'))"
proof (induction node arbitrary: parent q)
  case (File nm)
  then show ?case by simp
next
  case (Dir nm meta listing)
  show ?case
  proof (cases "q = child_path parent nm")
    case True
    then show ?thesis by simp
  next
    case False
    with Dir.prems obtain entry where entry: "entry \<in> set listing"
      and q: "q \<in> set (paths (Some (child_path parent nm)) entry)"
      by auto
    from Dir.IH [OF entry q] obtain r where
      "q = child_path (Some (child_path parent nm)) (entry_name entry) @ r" by blast
    then have "q = child_path parent nm @ slash # (entry_name entry @ r)"
      by (simp add: child_path_def)
    then show ?thesis by simp
  qed
qed

lemma takeWhile_name:
  assumes "slash \<notin> set n" and "r = [] \<or> (\<exists>r'. r = slash # r')"
  shows "takeWhile (\<lambda>c. c \<noteq> slash) (n @ r) = n"
  using assms by (auto simp: takeWhile_until takeWhile_eq_all_conv)

lemma sibling_paths_disjoint:
  assumes "slash \<notin> set (entry_name a)" "slash \<notin> set (entry_name b)"
    and "entry_name a \<noteq> entry_name b"
    and "q \<in> set (paths (Some p) a)" "q \<in> set (paths (Some p) b)"
  shows False
proof -
  from paths_under [OF assms(4)] obtain r where
    r: "q = p @ slash # entry_name a @ r" "r = [] \<or> (\<exists>r'. r = slash # r')"
    by (auto simp: child_path_def)
  from paths_under [OF assms(5)] obtain s where
    s: "q = p @ slash # entry_name b @ s" "s = [] \<or> (\<exists>s'. s = slash # s')"
    by (auto simp: child_path_def)
  from r(1) s(1) have "entry_name a @ r = entry_name b @ s" by simp
  then have "takeWhile (\<lambda>c. c \<noteq> slash) (entry_name a @ r) =
      takeWhile (\<lambda>c. c \<noteq> slash) (entry_name b @ s)" by simp
  then have "entry_name a = entry_name b"
    by (simp only: takeWhile_name [OF assms(1) r(2)] takeWhile_name [OF assms(2) s(2)])
  with assms(3) show False by simp
qed

lemma well_named_no_slash: "well_named node \<Longrightarrow> slash \<notin> set (entry_name node)"
  by (cases node) simp_all

lemma fragment_keys:
  "k \<in> fst ` set (fragments kind lazy inline inh parent ov node) \<Longrightarrow>
   \<exists>q \<in> set (paths parent node). k = ref_of q"
proof (induction node arbitrary: inline inh parent ov k)
  case (File nm)
  then show ?case by simp
next
  case (Dir nm meta listing)
  show ?case
  proof (cases "k = ref_of (child_path parent nm)")
    case True
    then show ?thesis by simp
  next
    case False
    with Dir.prems obtain entry where entry: "entry \<in> set listing"
      and k: "k \<in> fst ` set (fragments kind lazy False (merge_drug (fst (load_metadata meta)) inh)
                (Some (child_path parent nm)) (snd (load_metadata meta)) entry)"
      by (auto simp: Let_def split: if_splits)
    from Dir.IH [OF entry k] entry show ?thesis by auto
  qed
qed

lemma distinct_keys_concat:
  assumes "\<And>x. x \<in> set xs \<Longrightarrow> distinct (map fst (F x))"
    and "\<And>x y k. x \<in> set xs \<Longrightarrow> y \<in> set xs \<Longrightarrow> G x \<noteq> G y \<Longrightarrow>
           k \<in> fst ` set (F x) \<Longrightarrow> k \<in> fst ` set (F y) \<Longrightarrow> False"
    and "distinct (map G xs)"
  shows "distinct (map fst (concat (map F xs)))"
  using assms
proof (induction xs)
  case Nil
  show ?case by simp
next
  case (Cons x xs)
  have rest: "distinct (map fst (concat (map F xs)))"
  proof (rule Cons.IH)
    show "distinct (map fst (F y))" if "y \<in> set xs" for y
      using that by (intro Cons.prems(1)) simp
    show "distinct (map G xs)" using Cons.prems(3) by simp
    show False if "a \<in> set xs" "b \<in> set xs" "G a \<noteq> G b" "k \<in> fst ` set (F a)"
      "k \<in> fst ` set (F b)" for a b k
      using Cons.prems(2) [of a b k] that by simp
  qed
  have here: "distinct (map fst (F x))" using Cons.prems(1) by simp
  have "fst ` set (F x) \<inter> fst ` set (concat (map F xs)) = {}"
  proof (rule ccontr)
    assume "fst ` set (F x) \<inter> fst ` set (concat (map F xs)) \<noteq> {}"
    then obtain k y where k: "k \<in> fst ` set (F x)" and y: "y \<in> set xs" "k \<in> fst ` set (F y)"
      by auto
    from Cons.prems(3) y(1) have "G x \<noteq> G y" by auto
    with Cons.prems(2) [of x y k] k y show False by simp
  qed
  with rest here show ?case by (simp add: image_Un)
qed

lemma sibling_keys_disjoint:
  assumes "well_named x" "well_named y" "entry_name x \<noteq> entry_name y"
    and x: "k \<in> fst ` set (fragments kind lazy i1 inh1 (Some p) ov1 x)"
    and y: "k \<in> fst ` set (fragments kind lazy i2 inh2 (Some p) ov2 y)"
  shows False
proof -
  from fragment_keys [OF x] obtain q where q: "q \<in> set (paths (Some p) x)" "k = ref_of q"
    by blast
  from fragment_keys [OF y] obtain q' where q': "q' \<in> set (paths (Some p) y)" "k = ref_of q'"
    by blast
  have "ref_of q = ref_of q'" using q(2) q'(2) by simp
  then have "q = q'" by (rule ref_of_inj)
  with q'(1) have "q \<in> set (paths (Some p) y)" by simp
  with sibling_paths_disjoint [OF well_named_no_slash [OF assms(1)]
      well_named_no_slash [OF assms(2)] assms(3) q(1)]
  show False .
qed

lemma own_key_fresh:
  assumes "k \<in> fst ` set (fragments kind lazy i1 inh1 (Some p) ov1 x)"
  shows "k \<noteq> ref_of p"
proof
  assume k: "k = ref_of p"
  from fragment_keys [OF assms] obtain q where q: "q \<in> set (paths (Some p) x)" "k = ref_of q"
    by blast
  from paths_under [OF q(1)] obtain r where r: "q = child_path (Some p) (entry_name x) @ r"
    by blast
  have "ref_of q = ref_of p" using q(2) k by simp
  then have "q = p" by (rule ref_of_inj)
  with r show False by (simp add: child_path_def)
qed

lemma fragments_Dir:
  "map fst (fragments kind lazy inline inh parent ov (Dir nm meta listing)) =
     (if \<not> inline \<and> lazy (child_path parent nm) (Dir nm meta listing)
      then [ref_of (child_path parent nm)] else []) @
     map fst (concat (map (fragments kind lazy False (merge_drug (fst (load_metadata meta)) inh)
        (Some (child_path parent nm)) (snd (load_metadata meta))) listing))"
  by (simp add: Let_def del: walk.simps)

lemma fragments_distinct:
  "well_named node \<Longrightarrow> distinct (map fst (fragments kind lazy inline inh parent ov node))"
proof (induction node arbitrary: inline inh parent ov)
  case (File nm)
  show ?case by simp
next
  case (Dir nm meta listing)
  let ?pth = "child_path parent nm"
  let ?F = "fragments kind lazy False (merge_drug (fst (load_metadata meta)) inh) (Some ?pth)
              (snd (load_metadata meta))"
  have wn: "well_named entry" if "entry \<in> set listing" for entry
    using Dir.prems that by simp
  have below: "distinct (map fst (concat (map ?F listing)))"
  proof (rule distinct_keys_concat [where G = entry_name])
    show "distinct (map fst (?F x))" if "x \<in> set listing" for x
      using Dir.IH [OF that wn [OF that]] .
    show "distinct (map entry_name listing)" using Dir.prems by simp
    show False if "x \<in> set listing" "y \<in> set listing" "entry_name x \<noteq> entry_name y"
      "k \<in> fst ` set (?F x)" "k \<in> fst ` set (?F y)" for x y k
      using wn [OF that(1)] wn [OF that(2)] that(3-5) by (rule sibling_keys_disjoint)
  qed
  have own: "ref_of ?pth \<notin> set (map fst (concat (map ?F listing)))"
  proof
    assume "ref_of ?pth \<in> set (map fst (concat (map ?F listing)))"
    then obtain entry where entry: "entry \<in> set listing" and k: "ref_of ?pth \<in> fst ` set (?F entry)"
      by auto
    from own_key_fresh [OF k] show False by simp
  qed
  show ?case
    unfolding fragments_Dir using below own by (simp only: distinct_append distinct.simps split: if_splits) simp
qed

subsection \<open>The expanded tree is the tree built with lazy loading disabled\<close>

lemma expand_assembled:
  assumes "well_named root" and "depth root \<le> fuel"
  shows "expand fuel (map_of (assemble_fragments kind lazy root)) (assemble kind lazy root) =
         assemble kind never root"
proof -
  have d: "distinct (map fst (assemble_fragments kind lazy root))"
    unfolding assemble_fragments_def using assms(1) by (rule fragments_distinct)
  have "map_of (assemble_fragments kind lazy root) k = Some v"
    if "(k, v) \<in> set (fragments kind lazy True None None Map.empty root)" for k v
    using that d by (simp add: assemble_fragments_def)
  then show ?thesis
    unfolding assemble_def using assms(2) by (rule expand_walk)
qed

text \<open>
  C4. For a snapshot of a file system and any lazy-loading configuration, expanding every
  external reference of the assembled tree from the fragments emitted with it, with fuel
  for the depth of the snapshot, gives the tree that is built with lazy loading disabled:
  the same nodes, with the same paths and the same merged fields.
\<close>

theorem expand_reproduces_eager_tree:
  assumes "well_named root" and "depth root \<le> fuel"
  shows "expand fuel (map_of (assemble_fragments kind lazy root)) (assemble kind lazy root) =
           assemble kind never root \<and>
         set (map node_fields
               (nodes (expand fuel (map_of (assemble_fragments kind lazy root))
                        (assemble kind lazy root)))) =
           set (map node_fields (nodes (assemble kind never root)))"
proof -
  have "expand fuel (map_of (assemble_fragments kind lazy root)) (assemble kind lazy root) =
      assemble kind never root"
    using assms by (rule expand_assembled)
  then show ?thesis by simp
qed

theorem expand_reproduces_eager_tree_witness:
  "well_named archive \<and> depth archive \<le> 2 \<and>
   assemble as_pdf split_A archive = lazy_root \<and>
   expand 2 (map_of (assemble_fragments as_pdf split_A archive)) lazy_root = full_root"
proof -
  have w: "well_named archive"
    by (simp add: archive_def js_def cu_def slash_def)
  have d: "depth archive \<le> 2" by (simp add: archive_def)
  have l: "assemble as_pdf split_A archive = lazy_root"
    by (simp add: assemble_def archive_def split_A_def lazy_root_def lazy_folder_entry_def ref_of_def
      load_metadata_def no_overlay_def child_path_def merge_drug_def file_node_def as_pdf_def drug_X_def
      js_def cu_def slash_def Let_def)
  have f: "assemble as_pdf never archive = full_root"
    by (simp add: assemble_def archive_def never_def full_root_def folder_entry_def doc_entry_def
      load_metadata_def no_overlay_def child_path_def merge_drug_def file_node_def as_pdf_def drug_X_def
      js_def cu_def slash_def Let_def)
  from expand_reproduces_eager_tree [OF w d, of as_pdf split_A]
  have "expand 2 (map_of (assemble_fragments as_pdf split_A archive)) lazy_root = full_root"
    by (simp only: l f)
  with w d l show ?thesis by blast
qed

section \<open>The resolver and lazy fragments\<close>

lemma nodes_unloaded: "children e = None \<Longrightarrow> nodes e = [e]"
  by (cases e) simp

text \<open>
  C3, as the code has it. \<open>findEntryByPath\<close> searches the entries that are loaded and
  nothing else, and fetches nothing: it finds a path exactly when a loaded entry has it,
  and an entry without \<open>children\<close> (an unexpanded \<open>$ref\<close>) answers for its own path
  only, whatever its \<open>$ref\<close> names.
\<close>

theorem findEntryByPath_loaded_only:
  "(findEntryByPath tree P = None \<longleftrightarrow> P \<notin> path ` set (nodes tree)) \<and>
   (children tree = None \<longrightarrow> (findEntryByPath tree P = None \<longleftrightarrow> P \<noteq> path tree)) \<and>
   (\<forall>n. findEntryByPath tree P = Some n \<longrightarrow> n \<in> set (nodes tree) \<and> path n = P)"
proof (intro conjI impI allI)
  show "findEntryByPath tree P = None \<longleftrightarrow> P \<notin> path ` set (nodes tree)"
    by (auto simp: find_is_first_match find_None_iff)
  show "findEntryByPath tree P = None \<longleftrightarrow> P \<noteq> path tree" if "children tree = None"
    using nodes_unloaded [OF that] by (auto simp: find_is_first_match(1))
  show "n \<in> set (nodes tree)" "path n = P" if "findEntryByPath tree P = Some n" for n
    using that by (auto simp: find_is_first_match(1) find_Some_iff)
qed

theorem findEntryByPath_loaded_only_witness:
  "children lazy_folder_entry = None \<and> js ''d/A/x.pdf'' \<noteq> path lazy_folder_entry \<and>
   findEntryByPath lazy_folder_entry (js ''d/A/x.pdf'') = None"
proof -
  have c: "children lazy_folder_entry = None" by (simp add: lazy_folder_entry_def)
  have p: "js ''d/A/x.pdf'' \<noteq> path lazy_folder_entry"
    by (simp add: lazy_folder_entry_def js_def)
  from findEntryByPath_loaded_only [of lazy_folder_entry "js ''d/A/x.pdf''"] c p
  have "findEntryByPath lazy_folder_entry (js ''d/A/x.pdf'') = None" by blast
  with c p show ?thesis by blast
qed

text \<open>
  C3 as stated fails: in \<open>lazy_root\<close> the folder \<open>d/A\<close> is an unexpanded \<open>$ref\<close>,
  and the path \<open>d/A/x.pdf\<close> inside it resolves to \<open>null\<close>, while on the fully
  expanded tree \<open>full_root\<close> it resolves to the file.
\<close>

theorem findEntryByPath_does_not_fetch:
  "children lazy_folder_entry = None \<and> ref lazy_folder_entry = Some (js ''/d/A/toc.json'') \<and>
   findEntryByPath lazy_root (js ''d/A/x.pdf'') = None \<and>
   findEntryByPath full_root (js ''d/A/x.pdf'') = Some doc_entry"
  by (simp add: lazy_root_def lazy_folder_entry_def full_root_def folder_entry_def doc_entry_def
      js_def cu_def)

text \<open>
  \<open>full_root\<close> is \<open>lazy_root\<close> with the fragment of \<open>d/A\<close> spliced in, and for the
  assembler's trees resolving on the expanded tree is resolving on the tree built with
  lazy loading disabled.
\<close>

lemma lazy_root_expanded:
  "expand 1 [js ''/d/A/toc.json'' \<mapsto> folder_entry] lazy_root = full_root"
  by (simp add: lazy_root_def lazy_folder_entry_def full_root_def folder_entry_def doc_entry_def
      js_def cu_def)

lemma findEntryByPath_after_expansion:
  assumes "well_named root" and "depth root \<le> fuel"
  shows "findEntryByPath
           (expand fuel (map_of (assemble_fragments kind lazy root)) (assemble kind lazy root)) P =
         findEntryByPath (assemble kind never root) P"
  by (simp only: expand_assembled [OF assms])

section \<open>The hash change and the expanded folders\<close>

lemma handleHashChange_resolved:
  assumes "parseHash st = Some (p, s)" and "toc st = Some root" and "p \<noteq> []"
    and "findEntryByPath root p = Some entry"
  shows "handleHashChange st =
           Some (st\<lparr>scrollPosition := s, selectedEntry := Some entry,
                    expandedPaths := getParentPaths p\<rparr>)"
  using assms by (simp add: handleHashChange_def Let_def)

lemma handleHashChange_unknown_path:
  assumes "parseHash st = Some (p, s)" and "toc st = Some root"
    and "findEntryByPath root p = None"
  shows "handleHashChange st = Some (st\<lparr>scrollPosition := s\<rparr>)"
  using assms by (simp add: handleHashChange_def Let_def)

end
